theory Spec2Isabelle
  imports Main "HOL-Library.Word" "HOL-Library.Multiset"
begin

section \<open>Data model\<close>

text \<open>
  The engine is built on the chess library libchess and on a static evaluator; neither is
  part of the search sources. Their interface is taken as a parameter: a record of the
  functions and constants the search code calls, over an arbitrary type \<open>'p\<close> of
  positions. Every definition below is the translation of one function of the search
  sources and calls the library only through this record.

  Scores are C++ \<open>int\<close>; they are modelled as unbounded integers (the engine's scores
  are bounded by \<open>INFINITE\<close>, far from the 32-bit range).
\<close>

datatype piece_type = PAWN | KNIGHT | BISHOP | ROOK | QUEEN | KING

text \<open>
  Modelled from the spec: the type tag of a move (quiet, capture, en passant, promotion).
  The search sources only test for \<open>ENPASSANT\<close> and \<open>PROMOTION\<close>.
\<close>

datatype move_type = QUIET | CAPTURE | ENPASSANT | PROMOTION

text \<open>
  A libchess move wraps its encoded integer value: \<open>Move(v)\<close> builds it, \<open>value()\<close>
  reads it. The decoding into squares and type is the library's.
\<close>

datatype move = Move (move_value: int)

text \<open>\<open>SearchResult\<close>: a score and an optional principal variation.\<close>

record search_result =
  score :: int
  pv :: "move list option"

text \<open>
  \<open>SearchGlobals\<close>: the stop flag and the node counter. The flag is set by the UCI stop
  handler and cleared by \<open>best_move_search\<close>; the search functions only read it. The
  embedding is sequential: it covers the executions in which nobody writes the flag while
  a search function runs.
\<close>

record search_globals =
  stop_flag :: bool
  nodes :: nat

record 'p chess =
  MAX_PLY :: nat
  MATE_SCORE :: int
  MAX_MATE_SCORE :: int
  INFINITE :: int
  MATERIAL :: "piece_type \<Rightarrow> int"
  evaluate :: "'p \<Rightarrow> int"
  in_check :: "'p \<Rightarrow> bool"
  halfmoves :: "'p \<Rightarrow> int"
  is_repeat :: "'p \<Rightarrow> bool"
  hash :: "'p \<Rightarrow> 64 word"
  legal_move_list :: "'p \<Rightarrow> move list"
  check_evasion_move_list :: "'p \<Rightarrow> move list"
  generate_capture_moves :: "'p \<Rightarrow> move list"
  generate_promotions :: "'p \<Rightarrow> move list"
  is_legal_generated_move :: "'p \<Rightarrow> move \<Rightarrow> bool"
  make_move :: "'p \<Rightarrow> move \<Rightarrow> 'p"
  make_null_move :: "'p \<Rightarrow> 'p"
  piece_type_on :: "'p \<Rightarrow> nat \<Rightarrow> piece_type option"
  from_square :: "move \<Rightarrow> nat"
  to_square :: "move \<Rightarrow> nat"
  type_of_move :: "move \<Rightarrow> move_type"
  fen :: "'p \<Rightarrow> string"
  position_of_fen :: "string \<Rightarrow> 'p"

definition increment_nodes :: "search_globals \<Rightarrow> search_globals" where
  "increment_nodes sg = sg\<lparr>nodes := nodes sg + 1\<rparr>"

text \<open>
  Unary minus on a \<open>SearchResult\<close> (declared in search.h, used as
  \<open>-search_impl(...)\<close>): the score is negated, the principal variation is kept.
\<close>

definition neg_result :: "search_result \<Rightarrow> search_result" where
  "neg_result r = r\<lparr>score := - score r\<rparr>"

section \<open>Move ordering\<close>

text \<open>
  The key function of \<open>sort_moves\<close> (the lambda handed to \<open>MoveList::sort\<close>). The
  source dereferences the optional piece on the from-square with \<open>*\<close>; \<open>the\<close> is the
  same partial operation.
\<close>

definition move_key :: "'p chess \<Rightarrow> 'p \<Rightarrow> move option \<Rightarrow> move \<Rightarrow> int" where
  "move_key E pos tt_move m =
     (let from_pt = the (piece_type_on E pos (from_square E m));
          to_pt = piece_type_on E pos (to_square E m);
          pawn_value = MATERIAL E PAWN;
          equality_bound = pawn_value - 50
      in if tt_move \<noteq> None \<and> m = the tt_move then 20000
         else if type_of_move E m = ENPASSANT then 10000 + pawn_value + 20
         else (case to_pt of
                 Some victim \<Rightarrow>
                   (let capture_value = MATERIAL E victim - MATERIAL E from_pt
                    in if capture_value \<ge> equality_bound then 10000 + capture_value
                       else 5000 + capture_value)
               | None \<Rightarrow> 0))"

text \<open>
  Modelled from the spec: \<open>MoveList::sort\<close> of libchess is not part of the sources. The
  spec describes it as a stable sort by an integer key, larger keys first, ties in
  generation order.
\<close>

definition move_list_sort :: "(move \<Rightarrow> int) \<Rightarrow> move list \<Rightarrow> move list" where
  "move_list_sort key ml = sort_key (\<lambda>m. - key m) ml"

definition sort_moves :: "'p chess \<Rightarrow> 'p \<Rightarrow> move list \<Rightarrow> move option \<Rightarrow> move list" where
  "sort_moves E pos move_list tt_move = move_list_sort (move_key E pos tt_move) move_list"

section \<open>Quiescence search\<close>

text \<open>
  \<open>qsearch_impl\<close> is the same function in every variant of the engine. The search
  stack pointer \<open>ss\<close> is modelled by the ply it stores (frame \<open>i\<close> of the stack holds
  \<open>ply = i\<close>, and \<open>ss + 1\<close> is the next frame). \<open>qsearch_moves\<close> is the loop over the
  sorted move list, with the loop variables \<open>alpha\<close> and \<open>best_score\<close> as arguments.
\<close>

function qsearch_impl :: "'p chess \<Rightarrow> 'p \<Rightarrow> int \<Rightarrow> int \<Rightarrow> nat \<Rightarrow> search_globals \<Rightarrow> int \<times> search_globals"
  and qsearch_moves :: "'p chess \<Rightarrow> 'p \<Rightarrow> move list \<Rightarrow> int \<Rightarrow> int \<Rightarrow> int \<Rightarrow> nat \<Rightarrow> search_globals \<Rightarrow> int \<times> search_globals"
where
  "qsearch_impl E pos alpha beta ply sg =
     (if stop_flag sg then (0, sg)
      else let sg1 = increment_nodes sg in
        if ply \<ge> MAX_PLY E then (evaluate E pos, sg1)
        else let eval = evaluate E pos;
                 alpha1 = (if eval > alpha then eval else alpha) in
          if eval \<ge> beta then (beta, sg1)
          else if in_check E pos then
            (let move_list = check_evasion_move_list E pos in
             if move_list = [] then ((if in_check E pos then - MATE_SCORE E + int ply else 0), sg1)
             else qsearch_moves E pos (sort_moves E pos move_list None) alpha1 beta (- INFINITE E) ply sg1)
          else qsearch_moves E pos
                 (sort_moves E pos (generate_capture_moves E pos @ generate_promotions E pos) None)
                 alpha1 beta (- INFINITE E) ply sg1)"
| "qsearch_moves E pos [] alpha beta best_score ply sg = (alpha, sg)"
| "qsearch_moves E pos (m # ms) alpha beta best_score ply sg =
     (if \<not> is_legal_generated_move E pos m then qsearch_moves E pos ms alpha beta best_score ply sg
      else let (r, sg1) = qsearch_impl E (make_move E pos m) (- beta) (- alpha) (ply + 1) sg;
               score = - r in
        if stop_flag sg1 then (0, sg1)
        else if score > best_score then
          (if score > alpha then
             (if score \<ge> beta then (score, sg1)
              else qsearch_moves E pos ms score beta score ply sg1)
           else qsearch_moves E pos ms alpha beta score ply sg1)
        else qsearch_moves E pos ms alpha beta best_score ply sg1)"
  by pat_completeness auto
termination
  by (relation "inv_image (less_than <*lex*> less_than)
        (\<lambda>x. case x of
           Inl (E, pos, alpha, beta, ply, sg) \<Rightarrow>
             ((if ply \<ge> MAX_PLY E then 0 else 2 * (MAX_PLY E - ply)), 0)
         | Inr (E, pos, ms, alpha, beta, best_score, ply, sg) \<Rightarrow>
             ((if ply \<ge> MAX_PLY E then 1 else 2 * (MAX_PLY E - ply) - 1), length ms))")
     (auto split: if_splits)

section \<open>Full-width search: the code shared by the variants\<close>

text \<open>
  Every variant of \<open>search_impl\<close> starts with the same guards (after the test
  \<open>depth <= 0\<close>): at \<open>ply > 0\<close> the stop flag, the fifty-move and repetition draws, the
  ply limit and mate-distance pruning. \<open>entry_guards\<close> is that block: \<open>Inl\<close> is the
  early return, \<open>Inr\<close> the window the node goes on with. The variants differ in the
  empty principal variation they return (\<open>{}\<close>, no list, or \<open>MoveList()\<close>, an empty
  list): the argument \<open>epv\<close>.
\<close>

definition entry_guards :: "'p chess \<Rightarrow> move list option \<Rightarrow> 'p \<Rightarrow> int \<Rightarrow> int \<Rightarrow> nat \<Rightarrow> search_globals
    \<Rightarrow> search_result + int \<times> int" where
  "entry_guards E epv pos alpha beta ply sg =
     (if ply \<noteq> 0 then
        (if stop_flag sg then Inl \<lparr>score = 0, pv = epv\<rparr>
         else if halfmoves E pos \<ge> 100 \<or> is_repeat E pos then Inl \<lparr>score = 0, pv = epv\<rparr>
         else if ply \<ge> MAX_PLY E then Inl \<lparr>score = evaluate E pos, pv = epv\<rparr>
         else let alpha1 = max (- MATE_SCORE E + int ply) alpha;
                  beta1 = min (MATE_SCORE E - int ply) beta in
           if alpha1 \<ge> beta1 then Inl \<lparr>score = alpha1, pv = epv\<rparr>
           else Inr (alpha1, beta1))
      else Inr (alpha, beta))"

text \<open>\<open>pv.clear(); pv.add(move); if (search_result.pv) pv.add(*search_result.pv)\<close>.\<close>

definition pv_add :: "move \<Rightarrow> move list option \<Rightarrow> move list" where
  "pv_add m child_pv = m # (case child_pv of Some l \<Rightarrow> l | None \<Rightarrow> [])"

section \<open>The sequential search of search-rs.cpp\<close>

text \<open>
  \<open>search_moves_rs\<close> is the loop over the sorted moves; its arguments after the list
  are the loop variables \<open>move_num\<close>, \<open>alpha\<close>, \<open>best_score\<close> and \<open>pv\<close>.
  \<open>make_move\<close> and \<open>unmake_move\<close> around the recursive call become the child position.
\<close>

function search_impl_rs :: "'p chess \<Rightarrow> 'p \<Rightarrow> int \<Rightarrow> int \<Rightarrow> int \<Rightarrow> nat \<Rightarrow> search_globals
    \<Rightarrow> search_result \<times> search_globals"
  and search_moves_rs :: "'p chess \<Rightarrow> 'p \<Rightarrow> move list \<Rightarrow> nat \<Rightarrow> bool \<Rightarrow> int \<Rightarrow> int \<Rightarrow> int \<Rightarrow> move list
    \<Rightarrow> int \<Rightarrow> nat \<Rightarrow> search_globals \<Rightarrow> search_result \<times> search_globals"
where
  "search_impl_rs E pos alpha beta depth ply sg =
     (if depth \<le> 0 then
        (let (q, sg1) = qsearch_impl E pos alpha beta ply sg in (\<lparr>score = q, pv = None\<rparr>, sg1))
      else case entry_guards E None pos alpha beta ply sg of
        Inl r \<Rightarrow> (r, sg)
      | Inr (alpha1, beta1) \<Rightarrow>
          (let pv_node = (alpha1 \<noteq> beta1 - 1);
               sg1 = increment_nodes sg;
               move_list = legal_move_list E pos in
           if move_list = [] then
             (\<lparr>score = (if in_check E pos then - MATE_SCORE E + int ply else 0), pv = None\<rparr>, sg1)
           else search_moves_rs E pos (sort_moves E pos move_list None) 0 pv_node
                  alpha1 beta1 (- INFINITE E) [] depth ply sg1))"
| "search_moves_rs E pos [] move_num pv_node alpha beta best_score pvl depth ply sg =
     (\<lparr>score = best_score, pv = Some pvl\<rparr>, sg)"
| "search_moves_rs E pos (m # ms) move_num pv_node alpha beta best_score pvl depth ply sg =
     (let child = make_move E pos m;
          (r0, sg0) = (if move_num + 1 = 1
                       then search_impl_rs E child (- beta) (- alpha) (depth - 1) (ply + 1) sg
                       else search_impl_rs E child (- alpha - 1) (- alpha) (depth - 1) (ply + 1) sg);
          (r1, sg1) = (if move_num + 1 > 1 \<and> score (neg_result r0) > alpha
                       then search_impl_rs E child (- beta) (- alpha) (depth - 1) (ply + 1) sg0
                       else (r0, sg0));
          search_result = neg_result r1
      in if ply \<noteq> 0 \<and> stop_flag sg1 then (\<lparr>score = 0, pv = None\<rparr>, sg1)
         else if score search_result > best_score then
           (if score search_result > alpha then
              (let pvl1 = (if pv_node then pv_add m (pv search_result) else pvl) in
               if score search_result \<ge> beta
               then (\<lparr>score = score search_result, pv = Some pvl1\<rparr>, sg1)
               else search_moves_rs E pos ms (move_num + 1) pv_node (score search_result) beta
                      (score search_result) pvl1 depth ply sg1)
            else search_moves_rs E pos ms (move_num + 1) pv_node alpha beta
                   (score search_result) pvl depth ply sg1)
         else search_moves_rs E pos ms (move_num + 1) pv_node alpha beta best_score pvl depth ply sg1)"
  by pat_completeness auto
termination
  by (relation "inv_image (less_than <*lex*> less_than)
        (\<lambda>x. case x of
           Inl (E, pos, alpha, beta, depth, ply, sg) \<Rightarrow>
             ((if depth \<le> 0 then 0 else 2 * nat depth), 0)
         | Inr (E, pos, ms, move_num, pv_node, alpha, beta, best_score, pvl, depth, ply, sg) \<Rightarrow>
             ((if depth \<le> 0 then 1 else 2 * nat depth - 1), length ms))")
     (auto split: if_splits)


section \<open>The shared-table search of search-sht.cpp\<close>

text \<open>
  The transposition table of this variant is declared in tt.h, which is not part of the
  sources: its interface, as \<open>search_impl\<close> uses it, is a parameter.

  The loop over the moves is an OpenMP \<open>parallel for\<close>. The embedding is the execution
  of that loop by one thread, in index order; once \<open>local_stop_search\<close> is set every
  later iteration is skipped.
\<close>

record tt_entry =
  get_key :: "64 word"
  get_move :: int
  get_score :: int
  get_flag :: int
  get_depth :: int

record 't tt_api =
  FLAG_EXACT :: int
  FLAG_LOWER :: int
  FLAG_UPPER :: int
  tt_probe :: "'t \<Rightarrow> 64 word \<Rightarrow> tt_entry"
  tt_write :: "int \<Rightarrow> int \<Rightarrow> int \<Rightarrow> int \<Rightarrow> 64 word \<Rightarrow> 't \<Rightarrow> 't"
  tt_clear :: "'t \<Rightarrow> 't"

function search_impl_sht :: "'p chess \<Rightarrow> 't tt_api \<Rightarrow> 'p \<Rightarrow> int \<Rightarrow> int \<Rightarrow> int \<Rightarrow> nat
    \<Rightarrow> search_globals \<times> 't \<Rightarrow> search_result \<times> (search_globals \<times> 't)"
  and search_moves_sht :: "'p chess \<Rightarrow> 't tt_api \<Rightarrow> 'p \<Rightarrow> move list \<Rightarrow> nat \<Rightarrow> bool \<Rightarrow> int \<Rightarrow> int \<Rightarrow> int
    \<Rightarrow> move list \<Rightarrow> int \<Rightarrow> nat \<Rightarrow> search_globals \<times> 't
    \<Rightarrow> (int \<times> int \<times> move list) \<times> (search_globals \<times> 't)"
where
  "search_impl_sht E T pos alpha beta depth ply st =
     (if depth \<le> 0 then
        (let (q, sg1) = qsearch_impl E pos alpha beta ply (fst st)
         in (\<lparr>score = q, pv = Some []\<rparr>, (sg1, snd st)))
      else case entry_guards E (Some []) pos alpha beta ply (fst st) of
        Inl r \<Rightarrow> (r, st)
      | Inr (alpha1, beta1) \<Rightarrow>
          (let pv_node = (alpha1 \<noteq> beta1 - 1);
               h = hash E pos;
               tt_entry = tt_probe T (snd st) h;
               tt_score = get_score tt_entry;
               tt_flag = get_flag tt_entry
           in if get_key tt_entry = h \<and> \<not> pv_node \<and> get_depth tt_entry \<ge> depth \<and>
                 (tt_flag = FLAG_EXACT T \<or>
                  (tt_flag = FLAG_LOWER T \<and> tt_score \<ge> beta1) \<or>
                  (tt_flag = FLAG_UPPER T \<and> tt_score \<le> alpha1))
              then (\<lparr>score = tt_score, pv = Some []\<rparr>, st)
              else
                (let tt_move = (if get_key tt_entry = h then Some (Move (get_move tt_entry)) else None);
                     st1 = (increment_nodes (fst st), snd st);
                     move_list = legal_move_list E pos
                 in if move_list = [] then
                      (\<lparr>score = (if in_check E pos then - MATE_SCORE E + int ply else 0),
                        pv = Some []\<rparr>, st1)
                    else
                      (let ((best_score, alpha2, pvl), st2) =
                             search_moves_sht E T pos (sort_moves E pos move_list tt_move) 0 pv_node
                               alpha1 beta1 (- INFINITE E) [] depth ply st1;
                           tt_flag = (if best_score \<ge> beta1 then FLAG_LOWER T
                                      else if best_score < alpha2 then FLAG_UPPER T
                                      else FLAG_EXACT T)
                       in (\<lparr>score = best_score, pv = Some pvl\<rparr>,
                           (fst st2,
                            tt_write T (case tt_move of Some tm \<Rightarrow> move_value tm | None \<Rightarrow> 0)
                              tt_flag depth best_score h (snd st2)))))))"
| "search_moves_sht E T pos [] i pv_node alpha beta best_score pvl depth ply st =
     ((best_score, alpha, pvl), st)"
| "search_moves_sht E T pos (m # ms) i pv_node alpha beta best_score pvl depth ply st =
     (let thread_pos = make_move E pos m;
          (r0, st0) = (if i = 0
                       then search_impl_sht E T thread_pos (- beta) (- alpha) (depth - 1) (ply + 1) st
                       else search_impl_sht E T thread_pos (- alpha - 1) (- alpha) (depth - 1) (ply + 1) st);
          (r1, st1) = (if i > 0 \<and> score (neg_result r0) > alpha
                       then search_impl_sht E T thread_pos (- beta) (- alpha) (depth - 1) (ply + 1) st0
                       else (r0, st0));
          search_result = neg_result r1
      in if score search_result > best_score then
           (if score search_result > alpha then
              (let pvl1 = (if pv_node then pv_add m (pv search_result) else pvl) in
               if score search_result \<ge> beta
               then ((score search_result, score search_result, pvl1), st1)
               else search_moves_sht E T pos ms (i + 1) pv_node (score search_result) beta
                      (score search_result) pvl1 depth ply st1)
            else search_moves_sht E T pos ms (i + 1) pv_node alpha beta
                   (score search_result) pvl depth ply st1)
         else search_moves_sht E T pos ms (i + 1) pv_node alpha beta best_score pvl depth ply st1)"
  by pat_completeness auto
termination
  by (relation "inv_image (less_than <*lex*> less_than)
        (\<lambda>x. case x of
           Inl (E, T, pos, alpha, beta, depth, ply, st) \<Rightarrow>
             ((if depth \<le> 0 then 0 else 2 * nat depth), 0)
         | Inr (E, T, pos, ms, i, pv_node, alpha, beta, best_score, pvl, depth, ply, st) \<Rightarrow>
             ((if depth \<le> 0 then 1 else 2 * nat depth - 1), length ms))")
     (auto split: if_splits)


section \<open>The search of the MPI variant\<close>

text \<open>
  This variant has its own transposition table (\<open>struct TTEntry\<close>,
  \<open>class TranspositionTable\<close>), a global of the process, and adds null-move pruning and
  late move reductions. The table is a function from slot index to entry.
  \<open>search_moves_mpi\<close> returns \<open>Inl\<close> when the loop returns from \<open>search_impl\<close> (stop
  flag) and \<open>Inr\<close> with the loop variables when it ends or breaks.
\<close>

datatype tt_flag = EXACT | LOWER_BOUND | UPPER_BOUND

record mpi_tt_entry =
  e_hash :: "64 word"
  e_depth :: int
  e_score :: int
  e_best_move :: int
  e_flag :: tt_flag

definition default_entry :: mpi_tt_entry where
  "default_entry = \<lparr>e_hash = 0, e_depth = - 1, e_score = 0, e_best_move = 0, e_flag = EXACT\<rparr>"

type_synonym transposition_table = "nat \<Rightarrow> mpi_tt_entry"

definition TABLE_SIZE :: nat where
  "TABLE_SIZE = 2 ^ 20"

definition uint16 :: "int \<Rightarrow> int" where
  "uint16 v = v mod 65536"

definition tt_store :: "transposition_table \<Rightarrow> 64 word \<Rightarrow> int \<Rightarrow> int \<Rightarrow> move \<Rightarrow> tt_flag \<Rightarrow> transposition_table" where
  "tt_store tt h depth sc best_move flag =
     (let index = unat h mod TABLE_SIZE;
          entry = tt index
      in if e_hash entry \<noteq> h \<or> depth \<ge> e_depth entry
         then tt(index := \<lparr>e_hash = h, e_depth = depth, e_score = sc,
                            e_best_move = uint16 (move_value best_move), e_flag = flag\<rparr>)
         else tt)"

definition mpi_probe :: "transposition_table \<Rightarrow> 64 word \<Rightarrow> mpi_tt_entry option" where
  "mpi_probe tt h =
     (let index = unat h mod TABLE_SIZE;
          entry = tt index
      in if e_hash entry = h then Some entry else None)"

definition mpi_clear :: "transposition_table \<Rightarrow> transposition_table" where
  "mpi_clear tt = (\<lambda>index. default_entry)"

definition null_move_allowed :: "'p chess \<Rightarrow> 'p \<Rightarrow> bool \<Rightarrow> int \<Rightarrow> int \<Rightarrow> nat \<Rightarrow> bool" where
  "null_move_allowed E pos pv_node beta depth ply \<longleftrightarrow>
     \<not> pv_node \<and> \<not> in_check E pos \<and> depth \<ge> 3 \<and> ply > 0 \<and> evaluate E pos \<ge> beta"

function search_impl_mpi :: "'p chess \<Rightarrow> 'p \<Rightarrow> int \<Rightarrow> int \<Rightarrow> int \<Rightarrow> nat
    \<Rightarrow> search_globals \<times> transposition_table \<Rightarrow> search_result \<times> (search_globals \<times> transposition_table)"
  and search_moves_mpi :: "'p chess \<Rightarrow> 'p \<Rightarrow> move list \<Rightarrow> nat \<Rightarrow> bool \<Rightarrow> 64 word \<Rightarrow> int \<Rightarrow> int \<Rightarrow> int
    \<Rightarrow> move \<Rightarrow> move list \<Rightarrow> int \<Rightarrow> nat \<Rightarrow> search_globals \<times> transposition_table
    \<Rightarrow> (search_result + int \<times> move \<times> int \<times> move list) \<times> (search_globals \<times> transposition_table)"
where
  "search_impl_mpi E pos alpha beta depth ply st =
     (if depth \<le> 0 then
        (let (q, sg1) = qsearch_impl E pos alpha beta ply (fst st)
         in (\<lparr>score = q, pv = None\<rparr>, (sg1, snd st)))
      else case entry_guards E None pos alpha beta ply (fst st) of
        Inl r \<Rightarrow> (r, st)
      | Inr (alpha1, beta1) \<Rightarrow>
          (let pv_node = (alpha1 \<noteq> beta1 - 1);
               pos_hash = hash E pos;
               tt_entry = mpi_probe (snd st) pos_hash;
               tt_score = (case tt_entry of None \<Rightarrow> 0
                           | Some e \<Rightarrow>
                               if e_score e \<ge> MAX_MATE_SCORE E then e_score e - int ply
                               else if e_score e \<le> - MAX_MATE_SCORE E then e_score e + int ply
                               else e_score e)
           in if (case tt_entry of None \<Rightarrow> False
                  | Some e \<Rightarrow> e_depth e \<ge> depth \<and>
                      (e_flag e = EXACT \<or>
                       (e_flag e = LOWER_BOUND \<and> tt_score \<ge> beta1) \<or>
                       (e_flag e = UPPER_BOUND \<and> tt_score \<le> alpha1)))
              then (\<lparr>score = tt_score,
                     pv = Some (case tt_entry of None \<Rightarrow> []
                                | Some e \<Rightarrow> if e_best_move e \<noteq> 0 then [Move (e_best_move e)] else [])\<rparr>,
                    st)
              else
                (let tt_move = (case tt_entry of None \<Rightarrow> Move 0
                                | Some e \<Rightarrow> if e_best_move e \<noteq> 0 then Move (e_best_move e) else Move 0);
                     st1 = (increment_nodes (fst st), snd st);
                     move_list = legal_move_list E pos
                 in if move_list = [] then
                      (\<lparr>score = (if in_check E pos then - MATE_SCORE E + int ply else 0), pv = None\<rparr>, st1)
                    else
                      (let (null_cut, st2) =
                             (if null_move_allowed E pos pv_node beta1 depth ply then
                                (let (nr, st') = search_impl_mpi E (make_null_move E pos) (- beta1) (- beta1 + 1)
                                                   (depth - 3 - 1) (ply + 1) st1
                                 in (score (neg_result nr) \<ge> beta1, st'))
                              else (False, st1))
                       in if null_cut then (\<lparr>score = beta1, pv = None\<rparr>, st2)
                          else
                            (case search_moves_mpi E pos (sort_moves E pos move_list (Some tt_move)) 0 pv_node
                                    pos_hash alpha1 beta1 (- INFINITE E) (Move 0) [] depth ply st2 of
                               (Inl r, st3) \<Rightarrow> (r, st3)
                             | (Inr (best_score, best_move, alpha2, pvl), st3) \<Rightarrow>
                                 (let flag = (if best_score \<le> alpha2 then UPPER_BOUND else EXACT);
                                      store_score = (if best_score \<ge> MAX_MATE_SCORE E then best_score + int ply
                                                     else if best_score \<le> - MAX_MATE_SCORE E then best_score - int ply
                                                     else best_score)
                                  in (\<lparr>score = best_score, pv = Some pvl\<rparr>,
                                      (fst st3,
                                       if move_value best_move \<noteq> 0
                                       then tt_store (snd st3) pos_hash depth store_score best_move flag
                                       else snd st3))))))))"
| "search_moves_mpi E pos [] move_num pv_node pos_hash alpha beta best_score best_move pvl depth ply st =
     (Inr (best_score, best_move, alpha, pvl), st)"
| "search_moves_mpi E pos (m # ms) move_num pv_node pos_hash alpha beta best_score best_move pvl depth ply st =
     (let to_pt = piece_type_on E pos (to_square E m);
          child = make_move E pos m;
          new_depth = (if move_num + 1 > 3 \<and> depth > 2 \<and> \<not> in_check E child \<and> to_pt = None \<and>
                          type_of_move E m \<noteq> PROMOTION
                       then max 1 (depth - 2) else depth - 1);
          (r0, st0) = (if move_num + 1 = 1
                       then search_impl_mpi E child (- beta) (- alpha) new_depth (ply + 1) st
                       else search_impl_mpi E child (- alpha - 1) (- alpha) new_depth (ply + 1) st);
          (r1, st1) = (if move_num + 1 > 1 \<and> score (neg_result r0) > alpha \<and> new_depth < depth - 1
                       then search_impl_mpi E child (- alpha - 1) (- alpha) (depth - 1) (ply + 1) st0
                       else (r0, st0));
          (r2, st2) = (if move_num + 1 > 1 \<and> score (neg_result r0) > alpha \<and> score (neg_result r1) > alpha
                       then search_impl_mpi E child (- beta) (- alpha) (depth - 1) (ply + 1) st1
                       else (r1, st1));
          search_result = neg_result r2
      in if ply \<noteq> 0 \<and> stop_flag (fst st2) then (Inl \<lparr>score = 0, pv = None\<rparr>, st2)
         else if score search_result > best_score then
           (if score search_result > alpha then
              (let pvl1 = (if pv_node then pv_add m (pv search_result) else pvl) in
               if score search_result \<ge> beta
               then (Inr (score search_result, m, score search_result, pvl1),
                     (fst st2, tt_store (snd st2) pos_hash depth (score search_result) m LOWER_BOUND))
               else search_moves_mpi E pos ms (move_num + 1) pv_node pos_hash (score search_result) beta
                      (score search_result) m pvl1 depth ply st2)
            else search_moves_mpi E pos ms (move_num + 1) pv_node pos_hash alpha beta
                   (score search_result) m pvl depth ply st2)
         else search_moves_mpi E pos ms (move_num + 1) pv_node pos_hash alpha beta best_score best_move
                pvl depth ply st2)"
  by pat_completeness auto
termination
  by (relation "inv_image (less_than <*lex*> less_than)
        (\<lambda>x. case x of
           Inl (E, pos, alpha, beta, depth, ply, st) \<Rightarrow>
             ((if depth \<le> 0 then 0 else 2 * nat depth), 0)
         | Inr (E, pos, ms, move_num, pv_node, pos_hash, alpha, beta, best_score, best_move, pvl, depth, ply, st) \<Rightarrow>
             ((if depth \<le> 0 then 1 else 2 * nat depth - 1), length ms))")
     (auto split: if_splits simp: null_move_allowed_def)


section \<open>Root splitting over MPI: master and workers\<close>

text \<open>
  Messages are the values of the single \<open>MPI_Send\<close> calls. A worker is modelled by the
  function from the messages it receives to the messages it sends back and its new state
  (its own node counter and transposition table); the Boolean says whether the loop was
  left by the terminate signal (otherwise it blocks in \<open>MPI_Recv\<close>).

  The cluster holds the state of every worker, the replies not yet received by the
  master (FIFO per worker), the trace of everything the master sent, and a schedule: the
  master receives with \<open>MPI_ANY_SOURCE\<close>, and the schedule picks which of the workers
  with a reply is received next. Theorems hold for every schedule. A receive that can
  never complete is the value \<open>None\<close>.
\<close>

datatype wire = Wint int | Wchars string | Wu64 nat | Wu16s "int list"

type_synonym proc_state = "search_globals \<times> transposition_table"

definition worker_search :: "'p chess \<Rightarrow> int \<Rightarrow> string \<Rightarrow> int \<Rightarrow> proc_state \<Rightarrow> wire list \<times> proc_state" where
  "worker_search E fen_size fen_buffer search_depth wst =
     (let fen_str = takeWhile (\<lambda>c. c \<noteq> CHR 0x00) (take (nat fen_size) fen_buffer);
          worker_pos = position_of_fen E fen_str;
          initial_nodes = nodes (fst wst);
          (result, wst1) = search_impl_mpi E worker_pos (- INFINITE E) (INFINITE E) (search_depth - 1) 1 wst;
          nodes_searched = nodes (fst wst1) - initial_nodes;
          pv_length = (case pv result of Some l \<Rightarrow> int (length l) | None \<Rightarrow> 0)
      in ([Wint (score result), Wu64 nodes_searched, Wint pv_length] @
          (if pv_length > 0 then [Wu16s (map (\<lambda>m. uint16 (move_value m)) (the (pv result)))] else []),
          wst1))"

fun mpi_worker_loop :: "'p chess \<Rightarrow> wire list \<Rightarrow> proc_state \<Rightarrow> wire list \<times> proc_state \<times> bool" where
  "mpi_worker_loop E [] wst = ([], wst, False)"
| "mpi_worker_loop E (Wint fen_size # inbox) wst =
     (if fen_size = - 1 then ([], wst, True)
      else if fen_size = 0 then mpi_worker_loop E inbox wst
      else (case inbox of
              Wchars fen_buffer # Wint search_depth # inbox1 \<Rightarrow>
                (let (out, wst1) = worker_search E fen_size fen_buffer search_depth wst;
                     (out1, wst2, exited) = mpi_worker_loop E inbox1 wst1
                 in (out @ out1, wst2, exited))
            | _ \<Rightarrow> ([], wst, False)))"
| "mpi_worker_loop E (_ # inbox) wst = ([], wst, False)"

record cluster =
  c_workers :: "nat \<Rightarrow> proc_state"
  c_exited :: "nat \<Rightarrow> bool"
  c_outbox :: "nat \<Rightarrow> wire list"
  c_sent :: "(nat \<times> wire) list"
  c_sched :: "nat list"

definition deliver :: "'p chess \<Rightarrow> nat \<Rightarrow> wire list \<Rightarrow> cluster \<Rightarrow> cluster" where
  "deliver E w msgs cl =
     (let cl1 = cl\<lparr>c_sent := c_sent cl @ map (Pair w) msgs\<rparr>
      in if c_exited cl w then cl1
         else (let (out, wst, exited) = mpi_worker_loop E msgs (c_workers cl w)
               in cl1\<lparr>c_workers := (c_workers cl)(w := wst),
                       c_exited := (c_exited cl)(w := exited),
                       c_outbox := (c_outbox cl)(w := c_outbox cl w @ out)\<rparr>))"

definition send_work :: "'p chess \<Rightarrow> 'p \<Rightarrow> int \<Rightarrow> move \<Rightarrow> nat \<Rightarrow> cluster \<Rightarrow> cluster" where
  "send_work E pos depth mv worker cl =
     (let worker_pos = make_move E pos mv;
          fen_str = fen E worker_pos;
          fen_size = int (length fen_str)
      in deliver E worker [Wint fen_size, Wchars fen_str, Wint depth] cl)"

record master_vars =
  best_result :: search_result
  move_idx :: nat
  completed_moves :: nat
  worker_moves :: "nat \<Rightarrow> move"
  worker_busy :: "nat \<Rightarrow> bool"

fun initial_work :: "'p chess \<Rightarrow> 'p \<Rightarrow> int \<Rightarrow> move list \<Rightarrow> nat list \<Rightarrow> master_vars \<times> cluster
    \<Rightarrow> master_vars \<times> cluster" where
  "initial_work E pos depth moves [] s = s"
| "initial_work E pos depth moves (worker # ws) (mv, cl) =
     (if move_idx mv < length moves then
        (let m = moves ! move_idx mv
         in initial_work E pos depth moves ws
              (mv\<lparr>worker_busy := (worker_busy mv)(worker := True),
                   worker_moves := (worker_moves mv)(worker := m),
                   move_idx := move_idx mv + 1\<rparr>,
               send_work E pos depth m worker cl))
      else initial_work E pos depth moves ws
             (mv\<lparr>worker_busy := (worker_busy mv)(worker := False)\<rparr>, deliver E worker [Wint 0] cl))"

definition recv_any_source :: "nat \<Rightarrow> cluster \<Rightarrow> (nat \<times> cluster) option" where
  "recv_any_source nprocs cl =
     (let ready = filter (\<lambda>w. c_outbox cl w \<noteq> []) [1..<nprocs]
      in if ready = [] then None
         else (case c_sched cl of
                 [] \<Rightarrow> Some (hd ready, cl)
               | k # ks \<Rightarrow> Some (ready ! (k mod length ready), cl\<lparr>c_sched := ks\<rparr>)))"

definition worker_result_of :: "move \<Rightarrow> int \<Rightarrow> int \<Rightarrow> int list \<Rightarrow> search_result" where
  "worker_result_of completed_move result_score pv_length pv_values =
     \<lparr>score = - result_score,
      pv = Some (if pv_length > 0
                 then completed_move # map Move (take (nat pv_length) pv_values)
                 else [completed_move])\<rparr>"

function collect_results :: "'p chess \<Rightarrow> nat \<Rightarrow> 'p \<Rightarrow> int \<Rightarrow> move list \<Rightarrow> master_vars \<Rightarrow> search_globals \<Rightarrow> cluster
    \<Rightarrow> (master_vars \<times> search_globals \<times> cluster) option" where
  "collect_results E nprocs pos depth moves mv sg cl =
     (if completed_moves mv < length moves then
        (case recv_any_source nprocs cl of
           None \<Rightarrow> None
         | Some (worker, cl1) \<Rightarrow>
             (case c_outbox cl1 worker of
                Wint result_score # Wu64 worker_nodes # Wint pv_length # rest \<Rightarrow>
                  (case (if pv_length > 0
                         then (case rest of Wu16s pv_values # rest1 \<Rightarrow> Some (pv_values, rest1) | _ \<Rightarrow> None)
                         else Some ([], rest)) of
                     None \<Rightarrow> None
                   | Some (pv_values, rest1) \<Rightarrow>
                       (let completed_move = worker_moves mv worker;
                            sg1 = (increment_nodes ^^ worker_nodes) sg;
                            worker_result = worker_result_of completed_move result_score pv_length pv_values;
                            mv1 = mv\<lparr>best_result := (if score worker_result > score (best_result mv)
                                                     then worker_result else best_result mv),
                                     completed_moves := completed_moves mv + 1,
                                     worker_busy := (worker_busy mv)(worker := False)\<rparr>;
                            cl2 = cl1\<lparr>c_outbox := (c_outbox cl1)(worker := rest1)\<rparr>
                        in if move_idx mv1 < length moves then
                             (let m = moves ! move_idx mv1
                              in collect_results E nprocs pos depth moves
                                   (mv1\<lparr>worker_busy := (worker_busy mv1)(worker := True),
                                         worker_moves := (worker_moves mv1)(worker := m),
                                         move_idx := move_idx mv1 + 1\<rparr>)
                                   sg1 (send_work E pos depth m worker cl2))
                           else collect_results E nprocs pos depth moves mv1 sg1
                                  (deliver E worker [Wint 0] cl2)))
              | _ \<Rightarrow> None))
      else Some (mv, sg, cl))"
  by pat_completeness auto
termination
  by (relation "measure (\<lambda>(E, nprocs, pos, depth, moves, mv, sg, cl). length moves - completed_moves mv)") auto

definition search_mpi :: "'p chess \<Rightarrow> nat \<Rightarrow> nat \<Rightarrow> 'p \<Rightarrow> int \<Rightarrow> proc_state \<Rightarrow> cluster
    \<Rightarrow> (search_result \<times> proc_state \<times> cluster) option" where
  "search_mpi E rank nprocs pos depth st cl =
     (if rank = 0 then
        (let moves = sort_moves E pos (legal_move_list E pos) None
         in if moves = [] then
              Some (\<lparr>score = (if in_check E pos then - MATE_SCORE E else 0), pv = None\<rparr>, st,
                    fold (\<lambda>worker. deliver E worker [Wint (- 1)]) [1..<nprocs] cl)
            else if nprocs = 1 then
              (let (r, st1) = search_impl_mpi E pos (- INFINITE E) (INFINITE E) depth 0 st
               in Some (r, st1, cl))
            else
              (let mv0 = \<lparr>best_result = \<lparr>score = - INFINITE E, pv = None\<rparr>, move_idx = 0,
                          completed_moves = 0, worker_moves = (\<lambda>w. Move 0), worker_busy = (\<lambda>w. False)\<rparr>;
                   (mv1, cl1) = initial_work E pos depth moves [1..<nprocs] (mv0, cl)
               in (case collect_results E nprocs pos depth moves mv1 (fst st) cl1 of
                     None \<Rightarrow> None
                   | Some (mv2, sg2, cl2) \<Rightarrow> Some (best_result mv2, (sg2, snd st), cl2))))
      else Some (\<lparr>score = 0, pv = None\<rparr>, st, cl))"

function id_loop_mpi :: "'p chess \<Rightarrow> nat \<Rightarrow> 'p \<Rightarrow> int \<Rightarrow> int \<Rightarrow> move option \<Rightarrow> proc_state \<Rightarrow> cluster
    \<Rightarrow> (move option \<times> proc_state \<times> cluster) option" where
  "id_loop_mpi E nprocs pos depth max_depth best_move st cl =
     (if depth \<le> max_depth then
        (case search_mpi E 0 nprocs pos depth st cl of
           None \<Rightarrow> None
         | Some (search_result, st1, cl1) \<Rightarrow>
             if depth > 1 \<and> stop_flag (fst st1) then Some (best_move, st1, cl1)
             else (case pv search_result of
                     None \<Rightarrow> Some (best_move, st1, fold (\<lambda>worker. deliver E worker [Wint (- 1)]) [1..<nprocs] cl1)
                   | Some [] \<Rightarrow> Some (best_move, st1, fold (\<lambda>worker. deliver E worker [Wint (- 1)]) [1..<nprocs] cl1)
                   | Some (m # pvl) \<Rightarrow> id_loop_mpi E nprocs pos (depth + 1) max_depth (Some m) st1 cl1))
      else Some (best_move, st, fold (\<lambda>worker. deliver E worker [Wint (- 1)]) [1..<nprocs] cl))"
  by pat_completeness auto
termination
  by (relation "measure (\<lambda>(E, nprocs, pos, depth, max_depth, best_move, st, cl). nat (max_depth + 1 - depth))") auto

definition best_move_search_mpi :: "'p chess \<Rightarrow> nat \<Rightarrow> nat \<Rightarrow> 'p \<Rightarrow> proc_state \<Rightarrow> int \<Rightarrow> cluster
    \<Rightarrow> (move option \<times> proc_state \<times> cluster) option" where
  "best_move_search_mpi E rank nprocs pos st max_depth cl =
     (if rank = 0 then
        id_loop_mpi E nprocs pos 1 max_depth None
          ((fst st)\<lparr>stop_flag := False, nodes := 0\<rparr>, mpi_clear (snd st)) cl
      else Some (None, st, cl))"

section \<open>Iterative deepening of search-rs.cpp and search-sht.cpp\<close>

text \<open>
  In search-rs.cpp the loop reads \<open>*pv->begin()\<close> after testing only that the optional
  list is present; the read of an empty list is the error value \<open>Empty_pv_read\<close>.
  The emitted UCI info line is output only and is left out.
\<close>

datatype search_error = Empty_pv_read

definition search_rs :: "'p chess \<Rightarrow> 'p \<Rightarrow> search_globals \<Rightarrow> int \<Rightarrow> search_result \<times> search_globals" where
  "search_rs E pos sg depth = search_impl_rs E pos (- INFINITE E) (INFINITE E) depth 0 sg"

function id_loop_rs :: "'p chess \<Rightarrow> 'p \<Rightarrow> int \<Rightarrow> int \<Rightarrow> move option \<Rightarrow> search_globals
    \<Rightarrow> (search_error + move option) \<times> search_globals" where
  "id_loop_rs E pos depth max_depth best_move sg =
     (if depth \<le> max_depth then
        (let (search_result, sg1) = search_rs E pos sg depth
         in if depth > 1 \<and> stop_flag sg1 then (Inr best_move, sg1)
            else (case pv search_result of
                    None \<Rightarrow> (Inr best_move, sg1)
                  | Some [] \<Rightarrow> (Inl Empty_pv_read, sg1)
                  | Some (m # pvl) \<Rightarrow> id_loop_rs E pos (depth + 1) max_depth (Some m) sg1))
      else (Inr best_move, sg))"
  by pat_completeness auto
termination
  by (relation "measure (\<lambda>(E, pos, depth, max_depth, best_move, sg). nat (max_depth + 1 - depth))") auto

definition best_move_search_rs :: "'p chess \<Rightarrow> 'p \<Rightarrow> search_globals \<Rightarrow> int
    \<Rightarrow> (search_error + move option) \<times> search_globals" where
  "best_move_search_rs E pos search_globals max_depth =
     id_loop_rs E pos 1 max_depth None (search_globals\<lparr>stop_flag := False, nodes := 0\<rparr>)"

function id_loop_sht :: "'p chess \<Rightarrow> 't tt_api \<Rightarrow> 'p \<Rightarrow> int \<Rightarrow> int \<Rightarrow> move option \<Rightarrow> search_globals \<times> 't
    \<Rightarrow> move option \<times> (search_globals \<times> 't)" where
  "id_loop_sht E T pos depth max_depth best_move st =
     (if depth \<le> max_depth then
        (let (search_result, st1) = search_impl_sht E T pos (- INFINITE E) (INFINITE E) depth 0 st
         in if depth > 1 \<and> stop_flag (fst st1) then (best_move, st1)
            else id_loop_sht E T pos (depth + 1) max_depth
                   (case pv search_result of Some (m # pvl) \<Rightarrow> Some m | _ \<Rightarrow> best_move) st1)
      else (best_move, st))"
  by pat_completeness auto
termination
  by (relation "measure (\<lambda>(E, T, pos, depth, max_depth, best_move, st). nat (max_depth + 1 - depth))") auto

definition best_move_search_sht :: "'p chess \<Rightarrow> 't tt_api \<Rightarrow> 'p \<Rightarrow> search_globals \<times> 't \<Rightarrow> int
    \<Rightarrow> move option \<times> (search_globals \<times> 't)" where
  "best_move_search_sht E T pos st max_depth =
     id_loop_sht E T pos 1 max_depth None
       ((fst st)\<lparr>stop_flag := False, nodes := 0\<rparr>, tt_clear T (snd st))"

section \<open>A small instance\<close>

text \<open>
  A concrete instance of the library interface, used to run the definitions: positions
  are numbers, the move \<open>Move k\<close> leads to position \<open>k\<close>. Position 0 has two legal
  moves, position 1 one, the others none; positions 8 and 9 are in check (checkmate),
  position 8 with the halfmove counter at 100.
\<close>

definition toy :: "nat chess" where
  "toy = \<lparr> MAX_PLY = 64, MATE_SCORE = 31000, MAX_MATE_SCORE = 30000, INFINITE = 32000,
     MATERIAL = (\<lambda>pt. case pt of PAWN \<Rightarrow> 100 | KNIGHT \<Rightarrow> 300 | BISHOP \<Rightarrow> 300
                  | ROOK \<Rightarrow> 500 | QUEEN \<Rightarrow> 900 | KING \<Rightarrow> 0),
     evaluate = (\<lambda>p. if p = 0 then 100 else if p = 2 then - 50 else 0),
     in_check = (\<lambda>p. p = 8 \<or> p = 9),
     halfmoves = (\<lambda>p. if p = 8 then 100 else 0),
     is_repeat = (\<lambda>p. False),
     hash = (\<lambda>p. of_nat p),
     legal_move_list = (\<lambda>p. if p = 0 then [Move 1, Move 2] else if p = 1 then [Move 3] else []),
     check_evasion_move_list = (\<lambda>p. []),
     generate_capture_moves = (\<lambda>p. if p = 0 then [Move 9] else if p = 1 then [Move 14] else []),
     generate_promotions = (\<lambda>p. []),
     is_legal_generated_move = (\<lambda>p m. p \<noteq> 1),
     make_move = (\<lambda>p m. nat (move_value m)),
     make_null_move = (\<lambda>p. p + 100),
     piece_type_on = (\<lambda>p sq. if sq = 0 then Some KNIGHT else if sq = 1 then Some PAWN
                        else if sq = 2 then Some QUEEN else if sq = 3 then Some ROOK
                        else if sq = 6 then Some QUEEN else if sq = 7 then Some PAWN else None),
     from_square = (\<lambda>m. nat (move_value m) mod 4),
     to_square = (\<lambda>m. nat (move_value m) div 4 + 4),
     type_of_move = (\<lambda>m. if move_value m = 5 then ENPASSANT else QUIET),
     fen = (\<lambda>p. replicate p CHR ''x''),
     position_of_fen = (\<lambda>s. length s) \<rparr>"

text \<open>
  An instance of the table interface of tt.h, after the spec: a direct-mapped table of
  16 slots, kept when the slot holds the same key at a greater depth, overwritten otherwise.
\<close>

definition toy_tt :: "(nat \<Rightarrow> tt_entry) tt_api" where
  "toy_tt = \<lparr> FLAG_EXACT = 0, FLAG_LOWER = 1, FLAG_UPPER = 2,
     tt_probe = (\<lambda>t h. t (unat h mod 16)),
     tt_write = (\<lambda>mv fl d sc h t.
        if get_key (t (unat h mod 16)) = h \<and> d < get_depth (t (unat h mod 16))
        then t
        else t(unat h mod 16 := \<lparr>get_key = h, get_move = mv, get_score = sc, get_flag = fl, get_depth = d\<rparr>)),
     tt_clear = (\<lambda>t i. \<lparr>get_key = 0, get_move = 0, get_score = 0, get_flag = 0, get_depth = 0\<rparr>) \<rparr>"

definition sg0 :: search_globals where
  "sg0 = \<lparr>stop_flag = False, nodes = 0\<rparr>"

text \<open>The cleared table of the small instance.\<close>

definition tt0 :: "nat \<Rightarrow> tt_entry" where
  "tt0 = tt_clear toy_tt (\<lambda>i. undefined)"

text \<open>A state of the small instance with the stop flag set.\<close>

definition sg_stopped :: search_globals where
  "sg_stopped = \<lparr>stop_flag = True, nodes = 7\<rparr>"

text \<open>The cleared table of the MPI variant.\<close>

definition tt_empty :: transposition_table where
  "tt_empty = mpi_clear (\<lambda>i. default_entry)"

text \<open>
  The tables a search leaves behind: position 1 of the small instance searched at depth
  1 with the full window, from the cleared table, in the MPI variant and in the
  shared-table variant.
\<close>

definition tt_searched :: transposition_table where
  "tt_searched = snd (snd (search_impl_mpi toy 1 (- 32000) 32000 1 0 (sg0, tt_empty)))"

definition tt_searched_sht :: "nat \<Rightarrow> tt_entry" where
  "tt_searched_sht = snd (snd (search_impl_sht toy toy_tt 1 (- 32000) 32000 1 0 (sg0, tt0)))"

text \<open>
  A cluster of the small instance before the first search: every worker with a fresh
  counter and an empty table, nothing sent, nothing to receive.
\<close>

definition cl0 :: cluster where
  "cl0 = \<lparr>c_workers = (\<lambda>w. (sg0, tt_empty)), c_exited = (\<lambda>w. False), c_outbox = (\<lambda>w. []),
          c_sent = [], c_sched = []\<rparr>"

section \<open>Parts of the code, named\<close>

text \<open>
  Pieces of the functions above, cut out under a name so that lemmas can speak of them;
  each comes with the lemma that puts it back into its function.
\<close>

text \<open>
  The part of \<open>search_impl\<close> that follows the table probe, as a function of the move
  \<open>tt_move\<close> the probe left and of the window after the guards: count the node, generate
  and sort the moves, run the loop, write the table. In search-sht.cpp (lines 151-206):
\<close>

definition expand_node_sht :: "'p chess \<Rightarrow> 't tt_api \<Rightarrow> 'p \<Rightarrow> move option \<Rightarrow> int \<Rightarrow> int \<Rightarrow> int \<Rightarrow> nat
    \<Rightarrow> search_globals \<times> 't \<Rightarrow> search_result \<times> (search_globals \<times> 't)" where
  "expand_node_sht E T pos tt_move alpha1 beta1 depth ply st =
     (let st1 = (increment_nodes (fst st), snd st);
          move_list = legal_move_list E pos
      in if move_list = [] then
           (\<lparr>score = (if in_check E pos then - MATE_SCORE E + int ply else 0), pv = Some []\<rparr>, st1)
         else
           (let ((best_score, alpha2, pvl), st2) =
                  search_moves_sht E T pos (sort_moves E pos move_list tt_move) 0 (alpha1 \<noteq> beta1 - 1)
                    alpha1 beta1 (- INFINITE E) [] depth ply st1;
                tt_flag = (if best_score \<ge> beta1 then FLAG_LOWER T
                           else if best_score < alpha2 then FLAG_UPPER T
                           else FLAG_EXACT T)
            in (\<lparr>score = best_score, pv = Some pvl\<rparr>,
                (fst st2,
                 tt_write T (case tt_move of Some tm \<Rightarrow> move_value tm | None \<Rightarrow> 0)
                   tt_flag depth best_score (hash E pos) (snd st2)))))"

text \<open>In the MPI variant (lines 238-341), where \<open>tt_move\<close> is a move, \<open>Move 0\<close> by default:\<close>

definition expand_node_mpi :: "'p chess \<Rightarrow> 'p \<Rightarrow> move \<Rightarrow> int \<Rightarrow> int \<Rightarrow> int \<Rightarrow> nat
    \<Rightarrow> search_globals \<times> transposition_table \<Rightarrow> search_result \<times> (search_globals \<times> transposition_table)" where
  "expand_node_mpi E pos tt_move alpha1 beta1 depth ply st =
     (let pv_node = (alpha1 \<noteq> beta1 - 1);
          pos_hash = hash E pos;
          st1 = (increment_nodes (fst st), snd st);
          move_list = legal_move_list E pos
      in if move_list = [] then
           (\<lparr>score = (if in_check E pos then - MATE_SCORE E + int ply else 0), pv = None\<rparr>, st1)
         else
           (let (null_cut, st2) =
                  (if null_move_allowed E pos pv_node beta1 depth ply then
                     (let (nr, st') = search_impl_mpi E (make_null_move E pos) (- beta1) (- beta1 + 1)
                                        (depth - 3 - 1) (ply + 1) st1
                      in (score (neg_result nr) \<ge> beta1, st'))
                   else (False, st1))
            in if null_cut then (\<lparr>score = beta1, pv = None\<rparr>, st2)
               else
                 (case search_moves_mpi E pos (sort_moves E pos move_list (Some tt_move)) 0 pv_node
                         pos_hash alpha1 beta1 (- INFINITE E) (Move 0) [] depth ply st2 of
                    (Inl r, st3) \<Rightarrow> (r, st3)
                  | (Inr (best_score, best_move, alpha2, pvl), st3) \<Rightarrow>
                      (let flag = (if best_score \<le> alpha2 then UPPER_BOUND else EXACT);
                           store_score = (if best_score \<ge> MAX_MATE_SCORE E then best_score + int ply
                                          else if best_score \<le> - MAX_MATE_SCORE E then best_score - int ply
                                          else best_score)
                       in (\<lparr>score = best_score, pv = Some pvl\<rparr>,
                           (fst st3,
                            if move_value best_move \<noteq> 0
                            then tt_store (snd st3) pos_hash depth store_score best_move flag
                            else snd st3))))))"

text \<open>
  The score a probe of the MPI variant compares and returns: the stored score, mate
  scores shifted by the ply of the probing node.
\<close>

definition tt_score_at :: "'p chess \<Rightarrow> nat \<Rightarrow> mpi_tt_entry \<Rightarrow> int" where
  "tt_score_at E ply e =
     (if e_score e \<ge> MAX_MATE_SCORE E then e_score e - int ply
      else if e_score e \<le> - MAX_MATE_SCORE E then e_score e + int ply
      else e_score e)"

text \<open>
  One iteration of the master's collection loop, in two parts: \<open>parse_reply\<close> reads the
  four receives of a reply off the head of the worker's channel (lines 420-444), and
  \<open>master_step\<close> is the rest of the loop body (lines 423-486) for that reply.
  \<open>collect_results\<close> is the iteration of the two (lemma \<open>collect_results_step\<close>).
\<close>

definition parse_reply :: "wire list \<Rightarrow> (int \<times> nat \<times> int \<times> int list \<times> wire list) option" where
  "parse_reply box =
     (case box of
        Wint result_score # Wu64 worker_nodes # Wint pv_length # rest \<Rightarrow>
          (case (if pv_length > 0
                 then (case rest of Wu16s pv_values # rest1 \<Rightarrow> Some (pv_values, rest1) | _ \<Rightarrow> None)
                 else Some ([], rest)) of
             None \<Rightarrow> None
           | Some (pv_values, rest1) \<Rightarrow> Some (result_score, worker_nodes, pv_length, pv_values, rest1))
      | _ \<Rightarrow> None)"

definition master_step :: "'p chess \<Rightarrow> 'p \<Rightarrow> int \<Rightarrow> move list \<Rightarrow> nat
    \<Rightarrow> int \<times> nat \<times> int \<times> int list \<times> wire list
    \<Rightarrow> master_vars \<times> search_globals \<times> cluster \<Rightarrow> master_vars \<times> search_globals \<times> cluster" where
  "master_step E pos depth moves worker reply s =
     (case (reply, s) of
        ((result_score, worker_nodes, pv_length, pv_values, rest1), (mv, sg, cl1)) \<Rightarrow>
          (let completed_move = worker_moves mv worker;
               sg1 = (increment_nodes ^^ worker_nodes) sg;
               worker_result = worker_result_of completed_move result_score pv_length pv_values;
               mv1 = mv\<lparr>best_result := (if score worker_result > score (best_result mv)
                                        then worker_result else best_result mv),
                        completed_moves := completed_moves mv + 1,
                        worker_busy := (worker_busy mv)(worker := False)\<rparr>;
               cl2 = cl1\<lparr>c_outbox := (c_outbox cl1)(worker := rest1)\<rparr>
           in if move_idx mv1 < length moves then
                (let m = moves ! move_idx mv1
                 in (mv1\<lparr>worker_busy := (worker_busy mv1)(worker := True),
                          worker_moves := (worker_moves mv1)(worker := m),
                          move_idx := move_idx mv1 + 1\<rparr>,
                     sg1, send_work E pos depth m worker cl2))
              else (mv1, sg1, deliver E worker [Wint 0] cl2)))"

section \<open>Invariants\<close>

text \<open>
  The constants of search.h are parameters of the model. \<open>score_constants_ok\<close> is what
  the scores rely on: static evaluations are below the mate scores, the mate scores
  from \<open>MAX_MATE_SCORE\<close> to \<open>MATE_SCORE\<close> have room for \<open>MAX_PLY\<close> plies,
  \<open>INFINITE\<close> is above \<open>MATE_SCORE\<close>. \<open>tt_ok\<close>: every score in a table of the MPI
  variant is within \<open>MATE_SCORE\<close>.
\<close>

definition score_constants_ok :: "'p chess \<Rightarrow> bool" where
  "score_constants_ok E \<longleftrightarrow>
     (\<forall>p. \<bar>evaluate E p\<bar> < MAX_MATE_SCORE E) \<and>
     MAX_MATE_SCORE E + int (MAX_PLY E) \<le> MATE_SCORE E \<and>
     2 * int (MAX_PLY E) \<le> MATE_SCORE E \<and>
     MATE_SCORE E < INFINITE E \<and>
     1 \<le> MAX_PLY E"

definition tt_ok :: "'p chess \<Rightarrow> transposition_table \<Rightarrow> bool" where
  "tt_ok E tt \<longleftrightarrow> (\<forall>i. \<bar>e_score (tt i)\<bar> \<le> MATE_SCORE E)"

text \<open>
  What the move loop of the MPI variant hands back at ply \<open>ply\<close>, entered with
  \<open>best_score = best\<close>: the table is still within \<open>MATE_SCORE\<close>, and either the loop
  was stopped (score 0) or \<open>best_score\<close> has not decreased and is a score of a child
  one ply deeper (\<open>first\<close>: the loop was entered at the first move of a list with a move).
\<close>

definition loop_result_ok :: "'p chess \<Rightarrow> nat \<Rightarrow> bool \<Rightarrow> int
    \<Rightarrow> (search_result + int \<times> move \<times> int \<times> move list) \<times> proc_state \<Rightarrow> bool" where
  "loop_result_ok E ply first best res \<longleftrightarrow>
     tt_ok E (snd (snd res)) \<and>
     (case fst res of
        Inl r \<Rightarrow> score r = 0
      | Inr (bs, bm, a2, pvl) \<Rightarrow>
          best \<le> bs \<and> bs \<le> MATE_SCORE E - int ply - 1 \<and>
          (first \<longrightarrow> - (MATE_SCORE E - int ply - 1) \<le> bs))"

text \<open>
  The state of a round between two iterations of the collection loop. \<open>good_reply\<close>: a
  whole reply of a worker, with a score below \<open>INFINITE\<close>. \<open>collect_inv\<close>: every worker
  is alive, its table is within \<open>MATE_SCORE\<close>, its channel is empty or holds one good
  reply for a root move; the replies outstanding are as many as the moves dispatched and
  not completed; while moves are left to dispatch every worker is busy (but the workers
  \<open>todo\<close>, which have nothing in their channel); the best result is the initial one
  before the first completion and has a principal variation that starts with a root move
  after it.
\<close>

definition good_reply :: "'p chess \<Rightarrow> wire list \<Rightarrow> bool" where
  "good_reply E box \<longleftrightarrow>
     (\<exists>s n vals. box = [Wint s, Wu64 n, Wint (int (length vals))] @
                        (if vals = [] then [] else [Wu16s vals]) \<and> s < INFINITE E)"

definition collect_inv :: "'p chess \<Rightarrow> nat \<Rightarrow> move list \<Rightarrow> nat set \<Rightarrow> master_vars \<Rightarrow> cluster \<Rightarrow> bool" where
  "collect_inv E nprocs moves todo mv cl \<longleftrightarrow>
     (\<forall>w. 1 \<le> w \<and> w < nprocs \<longrightarrow>
        \<not> c_exited cl w \<and> tt_ok E (snd (c_workers cl w)) \<and>
        (c_outbox cl w = [] \<or> good_reply E (c_outbox cl w)) \<and>
        (c_outbox cl w \<noteq> [] \<longrightarrow> worker_moves mv w \<in> set moves)) \<and>
     completed_moves mv \<le> move_idx mv \<and> move_idx mv \<le> length moves \<and>
     card {w. 1 \<le> w \<and> w < nprocs \<and> c_outbox cl w \<noteq> []} = move_idx mv - completed_moves mv \<and>
     (move_idx mv < length moves \<longrightarrow> (\<forall>w. 1 \<le> w \<and> w < nprocs \<and> w \<notin> todo \<longrightarrow> c_outbox cl w \<noteq> [])) \<and>
     (\<forall>w\<in>todo. c_outbox cl w = []) \<and>
     (if completed_moves mv = 0 then score (best_result mv) = - INFINITE E
      else \<exists>m pvl. pv (best_result mv) = Some (m # pvl) \<and> m \<in> set moves)"

section \<open>Simplifier setup\<close>

text \<open>
  The defining equations of the recursive search functions are applied by name, never
  by the simplifier on its own.
\<close>

declare qsearch_impl.simps [simp del]

declare search_impl_rs.simps [simp del]

declare search_impl_sht.simps [simp del]

declare search_impl_mpi.simps [simp del]

declare id_loop_rs.simps [simp del]

declare id_loop_sht.simps [simp del]

declare id_loop_mpi.simps [simp del]

declare collect_results.simps [simp del]

text \<open>
  The claim on a work item, in its own words. \<open>search_child\<close>: the worker searches the
  child position, rebuilt from its FEN, at \<open>depth - 1\<close> with the window
  \<open>[-INFINITE, INFINITE]\<close> (on the second frame of its stack). \<open>worker_reply\<close>: it
  replies with the score, a node count, the length of the principal variation and, when
  there are any, its move values, which travel as 16-bit numbers. \<open>root_record\<close>: the
  master records the negated score and the root move followed by the moves received.
  \<open>worker_after\<close> is the state of a worker that has served work items for the root
  moves \<open>ms\<close>, in this order, and \<open>work_item_record\<close> says that \<open>rec\<close> is the record of
  a work item for the root move \<open>m\<close>, served by one of the workers after some work
  items of the round.
\<close>

definition pv_moves :: "search_result \<Rightarrow> move list" where
  "pv_moves r = (case pv r of Some l \<Rightarrow> l | None \<Rightarrow> [])"

definition search_child :: "'p chess \<Rightarrow> 'p \<Rightarrow> int \<Rightarrow> move \<Rightarrow> proc_state \<Rightarrow> search_result \<times> proc_state" where
  "search_child E pos depth m wst =
     search_impl_mpi E (position_of_fen E (fen E (make_move E pos m)))
       (- INFINITE E) (INFINITE E) (depth - 1) 1 wst"

definition worker_reply :: "search_result \<Rightarrow> nat \<Rightarrow> wire list" where
  "worker_reply r n =
     [Wint (score r), Wu64 n, Wint (int (length (pv_moves r)))] @
     (if pv_moves r = [] then [] else [Wu16s (map (\<lambda>m. uint16 (move_value m)) (pv_moves r))])"

definition root_record :: "move \<Rightarrow> search_result \<Rightarrow> search_result" where
  "root_record m r =
     \<lparr>score = - score r, pv = Some (m # map (\<lambda>x. Move (uint16 (move_value x))) (pv_moves r))\<rparr>"

fun worker_after :: "'p chess \<Rightarrow> 'p \<Rightarrow> int \<Rightarrow> move list \<Rightarrow> proc_state \<Rightarrow> proc_state" where
  "worker_after E pos depth [] wst = wst"
| "worker_after E pos depth (m # ms) wst =
     worker_after E pos depth ms (snd (search_child E pos depth m wst))"

definition work_item_record :: "'p chess \<Rightarrow> nat \<Rightarrow> 'p \<Rightarrow> int \<Rightarrow> move list \<Rightarrow> (nat \<Rightarrow> proc_state)
    \<Rightarrow> move \<Rightarrow> search_result \<Rightarrow> bool" where
  "work_item_record E nprocs pos depth moves W0 m rec \<longleftrightarrow>
     (\<exists>w ms. 1 \<le> w \<and> w < nprocs \<and> set ms \<subseteq> set moves \<and>
        rec = root_record m (fst (search_child E pos depth m (worker_after E pos depth ms (W0 w)))))"

text \<open>
  The state of a round between two iterations of the collection loop, as to what has
  been recorded. \<open>W0\<close> are the states of the workers at the start of the round. Every
  worker has served work items for root moves, and if it has a reply in its channel,
  it is the reply to the last of them, the move the master noted for it; every move
  dispatched is still with a worker or has a record not above the best result; the
  best result is a record once a work item has been completed.
\<close>

definition record_inv :: "'p chess \<Rightarrow> nat \<Rightarrow> 'p \<Rightarrow> int \<Rightarrow> move list \<Rightarrow> (nat \<Rightarrow> proc_state)
    \<Rightarrow> master_vars \<Rightarrow> cluster \<Rightarrow> bool" where
  "record_inv E nprocs pos depth moves W0 mv cl \<longleftrightarrow>
     (\<forall>w. 1 \<le> w \<and> w < nprocs \<longrightarrow>
        (\<exists>ms. set ms \<subseteq> set moves \<and> c_workers cl w = worker_after E pos depth ms (W0 w) \<and>
           (c_outbox cl w \<noteq> [] \<longrightarrow>
              ms \<noteq> [] \<and> last ms = worker_moves mv w \<and>
              (\<exists>n. c_outbox cl w =
                 worker_reply (fst (search_child E pos depth (last ms)
                                      (worker_after E pos depth (butlast ms) (W0 w)))) n)))) \<and>
     (\<forall>m\<in>set (take (move_idx mv) moves).
        (\<exists>w. 1 \<le> w \<and> w < nprocs \<and> c_outbox cl w \<noteq> [] \<and> worker_moves mv w = m) \<or>
        (\<exists>rec. work_item_record E nprocs pos depth moves W0 m rec \<and> score rec \<le> score (best_result mv))) \<and>
     (completed_moves mv \<noteq> 0 \<longrightarrow>
        (\<exists>m\<in>set moves. work_item_record E nprocs pos depth moves W0 m (best_result mv)))"

section \<open>Quiescence search: properties\<close>

lemma set_sort_moves: "set (sort_moves E pos ml t) = set ml"
  by (simp add: sort_moves_def move_list_sort_def)

lemma qsearch_moves_all_illegal:
  "\<forall>m\<in>set ms. \<not> is_legal_generated_move E pos m \<Longrightarrow>
   qsearch_moves E pos ms alpha beta best ply sg = (alpha, sg)"
  by (induction ms) auto

lemma qsearch_stop_flag:
  "stop_flag (snd (qsearch_impl E pos alpha beta ply sg)) = stop_flag sg"
  "stop_flag (snd (qsearch_moves E pos ms alpha beta best ply sg)) = stop_flag sg"
proof (induction E pos alpha beta ply sg and E pos ms alpha beta best ply sg
       rule: qsearch_impl_qsearch_moves.induct)
  case (1 E pos alpha beta ply sg)
  then show ?case
    by (simp add: qsearch_impl.simps [of E pos alpha beta ply sg] Let_def increment_nodes_def)
next
  case (2 E pos alpha beta best ply sg)
  then show ?case by simp
next
  case (3 E pos m ms alpha beta best ply sg)
  show ?case
  proof (cases "is_legal_generated_move E pos m")
    case False
    with 3(1) show ?thesis by simp
  next
    case True
    obtain r sg1 where child:
      "qsearch_impl E (make_move E pos m) (- beta) (- alpha) (ply + 1) sg = (r, sg1)"
      by (cases "qsearch_impl E (make_move E pos m) (- beta) (- alpha) (ply + 1) sg")
    have nn: "\<not> \<not> is_legal_generated_move E pos m"
      using True by simp
    have s1: "stop_flag sg1 = stop_flag sg"
      using 3(2) [OF nn] child by simp
    note ih = 3(3-5) [OF nn refl child [symmetric] refl]
    show ?thesis
      using s1 ih child True by (auto simp: Let_def)
  qed
qed

lemma qsearch_moves_ge_alpha:
  "\<not> stop_flag sg \<Longrightarrow> alpha \<le> fst (qsearch_moves E pos ms alpha beta best ply sg)"
proof (induction ms arbitrary: alpha best sg)
  case Nil
  then show ?case by simp
next
  case (Cons m ms)
  obtain r sg1 where child: "qsearch_impl E (make_move E pos m) (- beta) (- alpha) (ply + 1) sg = (r, sg1)"
    by (cases "qsearch_impl E (make_move E pos m) (- beta) (- alpha) (ply + 1) sg")
  have "stop_flag sg1 = stop_flag sg"
    using qsearch_stop_flag(1) [of E "make_move E pos m" "- beta" "- alpha" "ply + 1" sg] child by simp
  then have clear: "\<not> stop_flag sg1" using Cons.prems by simp
  have a: "alpha \<le> fst (qsearch_moves E pos ms alpha beta best ply sg)"
    using Cons.IH [OF Cons.prems] .
  have b: "\<And>b. alpha \<le> fst (qsearch_moves E pos ms alpha beta b ply sg1)"
    using Cons.IH [OF clear] .
  have c: "- r > alpha \<Longrightarrow> alpha \<le> fst (qsearch_moves E pos ms (- r) beta (- r) ply sg1)"
    using Cons.IH [OF clear, of "- r" "- r"] by simp
  show ?case
    using a b c clear child by (simp add: Let_def)
qed

text \<open>
  Claim C4 (stand-pat floor), as amended. The spec states that for a position not in
  check and a window with \<open>alpha \<le> evaluate(pos)\<close> and \<open>alpha < beta\<close> the quiescence
  search returns at least \<open>evaluate(pos)\<close>. The code returns \<open>beta\<close> when
  \<open>evaluate(pos) \<ge> beta\<close> (fail-hard stand-pat cutoff), which is below the evaluation
  whenever \<open>evaluate(pos) > beta\<close>, and it returns 0 when the stop flag is set. What
  holds, with the stop flag clear: the result is at least \<open>evaluate(pos)\<close> when
  \<open>evaluate(pos) < beta\<close>, it is exactly \<open>beta\<close> when \<open>evaluate(pos) \<ge> beta\<close> (below the
  ply limit), and in every case it is at least \<open>min(evaluate(pos), beta)\<close>.
\<close>

theorem qsearch_stand_pat_floor:
  assumes "\<not> stop_flag sg" and "\<not> in_check E pos" and "alpha \<le> evaluate E pos" and "alpha < beta"
  shows "(evaluate E pos < beta \<longrightarrow> evaluate E pos \<le> fst (qsearch_impl E pos alpha beta ply sg)) \<and>
         (beta \<le> evaluate E pos \<and> ply < MAX_PLY E \<longrightarrow> fst (qsearch_impl E pos alpha beta ply sg) = beta) \<and>
         min (evaluate E pos) beta \<le> fst (qsearch_impl E pos alpha beta ply sg)"
proof -
  let ?ml = "sort_moves E pos (generate_capture_moves E pos @ generate_promotions E pos) None"
  have clear: "\<not> stop_flag (increment_nodes sg)"
    using assms(1) by (simp add: increment_nodes_def)
  have loop: "evaluate E pos \<le> fst (qsearch_moves E pos ?ml (evaluate E pos) beta (- INFINITE E) ply (increment_nodes sg))"
    using qsearch_moves_ge_alpha [OF clear] .
  have loop2: "alpha \<le> fst (qsearch_moves E pos ?ml alpha beta (- INFINITE E) ply (increment_nodes sg))"
    using qsearch_moves_ge_alpha [OF clear] .
  show ?thesis
    using assms loop loop2
    by (simp add: qsearch_impl.simps [of E pos alpha beta ply sg] Let_def)
qed

theorem qsearch_stand_pat_floor_witness:
  "\<not> stop_flag sg0 \<and> \<not> in_check toy 2 \<and> (- 100) \<le> evaluate toy 2 \<and> (- 100 :: int) < 100 \<and>
   evaluate toy 2 < 100 \<and> evaluate toy 2 \<le> fst (qsearch_impl toy 2 (- 100) 100 0 sg0)"
  using qsearch_stand_pat_floor [of sg0 toy 2 "- 100" 100 0]
  by (simp add: toy_def sg0_def)

theorem qsearch_stand_pat_floor_counterexample:
  "\<not> in_check toy 0 \<and> (0::int) \<le> evaluate toy 0 \<and> (0::int) < 50 \<and> \<not> stop_flag sg0 \<and>
   fst (qsearch_impl toy 0 0 50 0 sg0) = 50 \<and> evaluate toy 0 = 100 \<and>
   fst (qsearch_impl toy 0 0 50 0 sg0) < evaluate toy 0"
  by (simp add: qsearch_impl.simps toy_def sg0_def)

text \<open>
  Claim C9 (quiet leaf). For a position not in check, with \<open>alpha < beta\<close> and the stop
  flag clear, whose capture-and-promotion list is empty or holds only illegal moves, the
  quiescence search returns \<open>beta\<close> if \<open>evaluate(pos) \<ge> beta\<close> and
  \<open>max(alpha, evaluate(pos))\<close> otherwise. The ply ranges over the frames of the search
  stack, \<open>0 \<le> ply < MAX_PLY\<close> (the array \<open>new_search_stack\<close> builds, and the data
  model's invariant on node entry).
\<close>

theorem qsearch_quiet_leaf:
  assumes "\<not> in_check E pos" and "alpha < beta" and "\<not> stop_flag sg" and "ply < MAX_PLY E"
    and "\<forall>m\<in>set (generate_capture_moves E pos @ generate_promotions E pos).
           \<not> is_legal_generated_move E pos m"
  shows "fst (qsearch_impl E pos alpha beta ply sg) =
           (if evaluate E pos \<ge> beta then beta else max alpha (evaluate E pos))"
proof -
  let ?ml = "sort_moves E pos (generate_capture_moves E pos @ generate_promotions E pos) None"
  have "\<forall>m\<in>set ?ml. \<not> is_legal_generated_move E pos m"
    using assms(5) by (simp only: set_sort_moves)
  then have loop: "\<And>a b bs s. qsearch_moves E pos ?ml a b bs ply s = (a, s)"
    by (rule qsearch_moves_all_illegal)
  show ?thesis
    using assms(1,3,4) by (simp add: qsearch_impl.simps [of E pos alpha beta ply sg] loop Let_def max_def)
qed

theorem qsearch_quiet_leaf_witness:
  "\<not> in_check toy 1 \<and> (- 10 :: int) < 10 \<and> \<not> stop_flag sg0 \<and> 0 < MAX_PLY toy \<and>
   generate_capture_moves toy 1 @ generate_promotions toy 1 = [Move 14] \<and>
   \<not> is_legal_generated_move toy 1 (Move 14) \<and>
   fst (qsearch_impl toy 1 (- 10) 10 0 sg0) = 0"
  using qsearch_quiet_leaf [of toy 1 "- 10" 10 sg0 0]
  by (simp add: toy_def sg0_def)

section \<open>Move ordering: properties\<close>

text \<open>
  Claim C7 (move-ordering key). The cases of the key function are tried in the order of
  the source: a move equal to \<open>tt_move\<close> gets 20000; otherwise an en-passant move gets
  \<open>10000 + material(PAWN) + 20\<close>; otherwise a move onto an occupied square (a capture)
  gets \<open>10000 + cap_value\<close> when \<open>cap_value = material(victim) - material(attacker)\<close> is at
  least \<open>material(PAWN) - 50\<close> and \<open>5000 + cap_value\<close> when it is not; every other move
  gets 0. The sorted list is a permutation of the move list in decreasing key order (the
  order itself rests on the library's \<open>MoveList::sort\<close>, modelled after the spec).
\<close>

theorem sort_moves_key_order:
  "(tt_move = Some m \<longrightarrow> move_key E pos tt_move m = 20000) \<and>
   (tt_move \<noteq> Some m \<and> type_of_move E m = ENPASSANT \<longrightarrow>
      move_key E pos tt_move m = 10000 + MATERIAL E PAWN + 20) \<and>
   (tt_move \<noteq> Some m \<and> type_of_move E m \<noteq> ENPASSANT \<and>
    piece_type_on E pos (to_square E m) = Some victim \<and>
    piece_type_on E pos (from_square E m) = Some attacker \<and>
    MATERIAL E victim - MATERIAL E attacker \<ge> MATERIAL E PAWN - 50 \<longrightarrow>
      move_key E pos tt_move m = 10000 + (MATERIAL E victim - MATERIAL E attacker)) \<and>
   (tt_move \<noteq> Some m \<and> type_of_move E m \<noteq> ENPASSANT \<and>
    piece_type_on E pos (to_square E m) = Some victim \<and>
    piece_type_on E pos (from_square E m) = Some attacker \<and>
    MATERIAL E victim - MATERIAL E attacker < MATERIAL E PAWN - 50 \<longrightarrow>
      move_key E pos tt_move m = 5000 + (MATERIAL E victim - MATERIAL E attacker)) \<and>
   (tt_move \<noteq> Some m \<and> type_of_move E m \<noteq> ENPASSANT \<and>
    piece_type_on E pos (to_square E m) = None \<longrightarrow> move_key E pos tt_move m = 0) \<and>
   sorted_wrt (\<lambda>a b. move_key E pos tt_move a \<ge> move_key E pos tt_move b)
     (sort_moves E pos move_list tt_move) \<and>
   mset (sort_moves E pos move_list tt_move) = mset move_list"
proof -
  have "sorted (map (\<lambda>a. - move_key E pos tt_move a) (sort_moves E pos move_list tt_move))"
    by (simp add: sort_moves_def move_list_sort_def)
  then have ord: "sorted_wrt (\<lambda>a b. move_key E pos tt_move a \<ge> move_key E pos tt_move b)
     (sort_moves E pos move_list tt_move)"
    by (simp add: sorted_map)
  have perm: "mset (sort_moves E pos move_list tt_move) = mset move_list"
    by (simp add: sort_moves_def move_list_sort_def)
  show ?thesis
    using ord perm by (auto simp: move_key_def Let_def)
qed

theorem sort_moves_key_order_witness:
  "move_key toy 0 (Some (Move 2)) (Move 2) = 20000 \<and>
   type_of_move toy (Move 5) = ENPASSANT \<and> move_key toy 0 (Some (Move 2)) (Move 5) = 10120 \<and>
   piece_type_on toy 0 (to_square toy (Move 9)) = Some QUEEN \<and>
   piece_type_on toy 0 (from_square toy (Move 9)) = Some PAWN \<and>
   move_key toy 0 (Some (Move 2)) (Move 9) = 10800 \<and>
   move_key toy 0 (Some (Move 2)) (Move 14) = 4200 \<and>
   move_key toy 0 (Some (Move 2)) (Move 1) = 0 \<and>
   sort_moves toy 0 [Move 1, Move 14, Move 5, Move 9, Move 2] (Some (Move 2)) =
     [Move 2, Move 9, Move 5, Move 14, Move 1]"
  using sort_moves_key_order [of "Some (Move 2)" "Move 9" toy 0 QUEEN PAWN
          "[Move 1, Move 14, Move 5, Move 9, Move 2]"]
  by (simp add: toy_def move_key_def sort_moves_def move_list_sort_def)

section \<open>Full-width search: properties\<close>

text \<open>
  Claim C8 (no legal moves), as amended. The spec states that every full-width node
  (\<open>depth \<ge> 1\<close>) whose legal move list is empty returns \<open>-MATE_SCORE + ply\<close> in check and
  0 otherwise, with an empty principal variation. The move list is generated only after
  the guards of the node: at \<open>ply > 0\<close> a set stop flag, a halfmove counter of 100 or a
  repetition return 0, the ply limit returns the evaluation, mate-distance pruning may
  close the window, and in the shared-table variant a table cutoff returns the stored
  score. A checkmated position with halfmove counter 100 at ply 1 returns 0. What holds:
  a node that passes these guards (every node at ply 0 does, up to the table cutoff) and
  has no legal move returns \<open>-MATE_SCORE + ply\<close> in check and 0 otherwise, with an empty
  principal variation, and counts one node. First conjunct: search-rs.cpp; second:
  search-sht.cpp.
\<close>

theorem search_no_legal_moves:
  assumes "depth \<ge> 1" and "legal_move_list E pos = []"
    and "ply = 0 \<or> (\<not> stop_flag sg \<and> halfmoves E pos < 100 \<and> \<not> is_repeat E pos \<and> ply < MAX_PLY E \<and>
           max (- MATE_SCORE E + int ply) alpha < min (MATE_SCORE E - int ply) beta)"
  shows "search_impl_rs E pos alpha beta depth ply sg =
           (\<lparr>score = (if in_check E pos then - MATE_SCORE E + int ply else 0), pv = None\<rparr>,
            increment_nodes sg) \<and>
         (\<not> (get_key (tt_probe T tt (hash E pos)) = hash E pos \<and>
             (if ply = 0 then alpha else max (- MATE_SCORE E + int ply) alpha) =
             (if ply = 0 then beta else min (MATE_SCORE E - int ply) beta) - 1 \<and>
             get_depth (tt_probe T tt (hash E pos)) \<ge> depth \<and>
             (get_flag (tt_probe T tt (hash E pos)) = FLAG_EXACT T \<or>
              (get_flag (tt_probe T tt (hash E pos)) = FLAG_LOWER T \<and>
               get_score (tt_probe T tt (hash E pos)) \<ge>
                 (if ply = 0 then beta else min (MATE_SCORE E - int ply) beta)) \<or>
              (get_flag (tt_probe T tt (hash E pos)) = FLAG_UPPER T \<and>
               get_score (tt_probe T tt (hash E pos)) \<le>
                 (if ply = 0 then alpha else max (- MATE_SCORE E + int ply) alpha)))) \<longrightarrow>
          search_impl_sht E T pos alpha beta depth ply (sg, tt) =
            (\<lparr>score = (if in_check E pos then - MATE_SCORE E + int ply else 0), pv = Some []\<rparr>,
             (increment_nodes sg, tt)))"
proof -
  define a where "a = (if ply = 0 then alpha else max (- MATE_SCORE E + int ply) alpha)"
  define b where "b = (if ply = 0 then beta else min (MATE_SCORE E - int ply) beta)"
  define e where "e = tt_probe T tt (hash E pos)"
  have g: "entry_guards E epv pos alpha beta ply sg = Inr (a, b)" for epv
    using assms(3) by (auto simp: entry_guards_def Let_def a_def b_def)
  have rs: "search_impl_rs E pos alpha beta depth ply sg =
           (\<lparr>score = (if in_check E pos then - MATE_SCORE E + int ply else 0), pv = None\<rparr>,
            increment_nodes sg)"
    using assms(1,2) by (simp add: search_impl_rs.simps [of E pos alpha beta depth ply sg] g Let_def)
  have sht: "search_impl_sht E T pos alpha beta depth ply (sg, tt) =
            (\<lparr>score = (if in_check E pos then - MATE_SCORE E + int ply else 0), pv = Some []\<rparr>,
             (increment_nodes sg, tt))"
    if nocut: "\<not> (get_key e = hash E pos \<and> a = b - 1 \<and> get_depth e \<ge> depth \<and>
             (get_flag e = FLAG_EXACT T \<or> (get_flag e = FLAG_LOWER T \<and> get_score e \<ge> b) \<or>
              (get_flag e = FLAG_UPPER T \<and> get_score e \<le> a)))"
  proof -
    have c: "(get_key e = hash E pos \<and> \<not> a \<noteq> b - 1 \<and> depth \<le> get_depth e \<and>
             (get_flag e = FLAG_EXACT T \<or> (get_flag e = FLAG_LOWER T \<and> b \<le> get_score e) \<or>
              (get_flag e = FLAG_UPPER T \<and> get_score e \<le> a))) = False"
      using nocut by blast
    show ?thesis
      using assms(1,2)
      by (simp only: search_impl_sht.simps [of E T pos alpha beta depth ply "(sg, tt)"] g Let_def
            fst_conv snd_conv sum.case prod.case e_def [symmetric] c)
         simp
  qed
  show ?thesis
    using rs sht unfolding a_def b_def e_def by blast
qed

theorem search_no_legal_moves_witness:
  "(1::int) \<ge> 1 \<and> legal_move_list toy 9 = [] \<and> in_check toy 9 \<and> \<not> stop_flag sg0 \<and> halfmoves toy 9 < 100 \<and>
   search_impl_rs toy 9 (- 32000) 32000 1 1 sg0 = (\<lparr>score = - 30999, pv = None\<rparr>, increment_nodes sg0) \<and>
   get_key (tt_probe toy_tt tt0 (hash toy 9)) \<noteq> hash toy 9 \<and>
   search_impl_sht toy toy_tt 9 (- 32000) 32000 1 1 (sg0, tt0) =
     (\<lparr>score = - 30999, pv = Some []\<rparr>, (increment_nodes sg0, tt0))"
  using search_no_legal_moves [of 1 toy 9 1 sg0 "- 32000" 32000 toy_tt tt0]
  by (simp add: toy_def sg0_def toy_tt_def tt0_def)

theorem search_no_legal_moves_counterexample:
  "(1::int) \<ge> 1 \<and> legal_move_list toy 8 = [] \<and> in_check toy 8 \<and> \<not> stop_flag sg0 \<and>
   - MATE_SCORE toy + 1 = - 30999 \<and>
   search_impl_rs toy 8 (- 32000) 32000 1 1 sg0 = (\<lparr>score = 0, pv = None\<rparr>, sg0) \<and>
   search_impl_sht toy toy_tt 8 (- 32000) 32000 1 1 (sg0, tt0) = (\<lparr>score = 0, pv = Some []\<rparr>, (sg0, tt0))"
  by (simp add: search_impl_rs.simps search_impl_sht.simps entry_guards_def toy_def sg0_def)

section \<open>Iterative deepening: properties\<close>

lemma id_loop_sht_no_moves:
  "legal_move_list E pos = [] \<Longrightarrow> fst (id_loop_sht E T pos depth max_depth bm st) = bm"
proof (induction E T pos depth max_depth bm st rule: id_loop_sht.induct)
  case (1 E T pos depth max_depth best_move st)
  show ?case
  proof (cases "depth \<le> max_depth")
    case False
    then show ?thesis
      by (simp add: id_loop_sht.simps [of E T pos depth max_depth best_move st])
  next
    case True
    obtain r st1 where s: "search_impl_sht E T pos (- INFINITE E) (INFINITE E) depth 0 st = (r, st1)"
      by (cases "search_impl_sht E T pos (- INFINITE E) (INFINITE E) depth 0 st")
    have ne: "- INFINITE E \<noteq> INFINITE E - 1" by presburger
    have "pv r = Some []"
      using s 1(2) ne
      by (auto simp: search_impl_sht.simps [of E T pos "- INFINITE E" "INFINITE E" depth 0 st]
            entry_guards_def Let_def split: prod.splits if_splits)
    then show ?thesis
      using 1(1) [OF True s [symmetric]] 1(2) True s
      by (simp add: id_loop_sht.simps [of E T pos depth max_depth best_move st])
  qed
qed

text \<open>
  Claim C3 (null search), as amended. The spec states that \<open>best_move_search\<close> returns
  no move when the stop flag is set before the call. The function clears the flag as one
  of its first statements, so the value of the flag before the call has no effect: from
  a position with legal moves the call with the flag set returns a move. What holds: the
  result is the same whether the flag was set or clear before the call, and the call
  returns no move when \<open>max_depth < 1\<close> or the root position has no legal move. First
  conjunct: search-rs.cpp; second: search-sht.cpp.
\<close>

theorem best_move_search_clears_stop_flag:
  "fst (best_move_search_rs E pos (sg\<lparr>stop_flag := True\<rparr>) max_depth) =
     fst (best_move_search_rs E pos (sg\<lparr>stop_flag := False\<rparr>) max_depth) \<and>
   fst (best_move_search_sht E T pos (sg\<lparr>stop_flag := True\<rparr>, tt) max_depth) =
     fst (best_move_search_sht E T pos (sg\<lparr>stop_flag := False\<rparr>, tt) max_depth) \<and>
   (max_depth < 1 \<or> legal_move_list E pos = [] \<longrightarrow>
      fst (best_move_search_rs E pos sg max_depth) = Inr None \<and>
      fst (best_move_search_sht E T pos (sg, tt) max_depth) = None)"
proof -
  have rs: "fst (best_move_search_rs E pos sg max_depth) = Inr None"
    if "max_depth < 1 \<or> legal_move_list E pos = []"
  proof (cases "max_depth < 1")
    case True
    then show ?thesis
      by (simp add: best_move_search_rs_def id_loop_rs.simps [of E pos 1 max_depth])
  next
    case False
    with that have nomoves: "legal_move_list E pos = []" by simp
    show ?thesis
      using False nomoves
      by (simp add: best_move_search_rs_def id_loop_rs.simps [of E pos 1 max_depth] search_rs_def
            search_impl_rs.simps [of E pos "- INFINITE E" "INFINITE E" 1 0] entry_guards_def Let_def)
  qed
  have sht: "fst (best_move_search_sht E T pos (sg, tt) max_depth) = None"
    if "max_depth < 1 \<or> legal_move_list E pos = []"
  proof (cases "max_depth < 1")
    case True
    then show ?thesis
      by (simp add: best_move_search_sht_def id_loop_sht.simps [of E T pos 1 max_depth])
  next
    case False
    with that have nomoves: "legal_move_list E pos = []" by simp
    show ?thesis
      unfolding best_move_search_sht_def by (rule id_loop_sht_no_moves [OF nomoves])
  qed
  show ?thesis
    using rs sht by (simp add: best_move_search_rs_def best_move_search_sht_def)
qed

theorem best_move_search_clears_stop_flag_witness:
  "legal_move_list toy 2 = [] \<and>
   fst (best_move_search_rs toy 2 sg_stopped 3) = Inr None \<and>
   fst (best_move_search_sht toy toy_tt 2 (sg_stopped, tt0) 3) = None \<and>
   fst (best_move_search_rs toy 0 (sg_stopped\<lparr>stop_flag := True\<rparr>) 1) =
     fst (best_move_search_rs toy 0 (sg_stopped\<lparr>stop_flag := False\<rparr>) 1)"
  using best_move_search_clears_stop_flag [of toy 2 sg_stopped 3 toy_tt tt0]
        best_move_search_clears_stop_flag [of toy 0 sg_stopped 1 toy_tt tt0]
  by (simp add: toy_def)

theorem best_move_search_clears_stop_flag_counterexample:
  "stop_flag sg_stopped \<and>
   fst (best_move_search_rs toy 0 sg_stopped 1) = Inr (Some (Move 2)) \<and>
   fst (best_move_search_sht toy toy_tt 0 (sg_stopped, tt0) 1) = Some (Move 2)"
  by code_simp

section \<open>The node counter only grows\<close>

text \<open>
  A node that returns before \<open>increment_nodes\<close> leaves the counter as it found it; a
  node that goes on counts itself. The next lemmas make the counter an observation of
  an early return.
\<close>

lemma qsearch_nodes_mono:
  "nodes sg \<le> nodes (snd (qsearch_impl E pos alpha beta ply sg))"
  "nodes sg \<le> nodes (snd (qsearch_moves E pos ms alpha beta best ply sg))"
proof (induction E pos alpha beta ply sg and E pos ms alpha beta best ply sg
       rule: qsearch_impl_qsearch_moves.induct)
  case (1 E pos alpha beta ply sg)
  have inc: "nodes (increment_nodes sg) = nodes sg + 1"
    by (simp add: increment_nodes_def)
  note ih1 = 1(1) [OF _ refl _ refl refl _ _ refl]
  note ih2 = 1(2) [OF _ refl _ refl refl]
  show ?case
    using ih1 ih2 inc
    by (auto simp: qsearch_impl.simps [of E pos alpha beta ply sg] Let_def)
next
  case (2 E pos alpha beta best ply sg)
  then show ?case by simp
next
  case (3 E pos m ms alpha beta best ply sg)
  show ?case
  proof (cases "is_legal_generated_move E pos m")
    case False
    with 3(1) show ?thesis by simp
  next
    case True
    obtain r sg1 where child:
      "qsearch_impl E (make_move E pos m) (- beta) (- alpha) (ply + 1) sg = (r, sg1)"
      by (cases "qsearch_impl E (make_move E pos m) (- beta) (- alpha) (ply + 1) sg")
    have nn: "\<not> \<not> is_legal_generated_move E pos m"
      using True by simp
    have s1: "nodes sg \<le> nodes sg1"
      using 3(2) [OF nn] child by simp
    note ih = 3(3-5) [OF nn refl child [symmetric] refl]
    show ?thesis
      using s1 ih child True by (auto simp: Let_def intro: order_trans)
  qed
qed

lemma search_sht_nodes_mono:
  "nodes (fst st) \<le> nodes (fst (snd (search_impl_sht E T pos alpha beta depth ply st)))"
  "nodes (fst st) \<le> nodes (fst (snd (search_moves_sht E T pos ms i pv_node alpha beta best pvl depth ply st)))"
proof (induction E T pos alpha beta depth ply st and E T pos ms i pv_node alpha beta best pvl depth ply st
       rule: search_impl_sht_search_moves_sht.induct)
  case (1 E T pos alpha beta depth ply st)
  have inc: "nodes (increment_nodes (fst st)) = nodes (fst st) + 1"
    by (simp add: increment_nodes_def)
  have q: "nodes (fst st) \<le> nodes (snd (qsearch_impl E pos alpha beta ply (fst st)))"
    by (rule qsearch_nodes_mono(1))
  show ?case
  proof (cases "depth \<le> 0")
    case True
    then show ?thesis
      using q by (simp add: search_impl_sht.simps [of E T pos alpha beta depth ply st] case_prod_beta)
  next
    case False
    show ?thesis
    proof (cases "entry_guards E (Some []) pos alpha beta ply (fst st)")
      case (Inl r)
      then show ?thesis
        using False by (simp add: search_impl_sht.simps [of E T pos alpha beta depth ply st])
    next
      case (Inr b)
      obtain a1 b1 where b: "b = (a1, b1)" by (cases b)
      note ih = 1 [OF False Inr b [symmetric] refl refl refl refl refl _ refl refl refl]
      show ?thesis
        using False Inr b ih inc
        by (auto simp: search_impl_sht.simps [of E T pos alpha beta depth ply st] Let_def
              case_prod_beta)
    qed
  qed
next
  case (2 E T pos i pv_node alpha beta best_score pvl depth ply st)
  then show ?case by simp
next
  case (3 E T pos m ms i pv_node alpha beta best_score pvl depth ply st)
  define child where "child = make_move E pos m"
  define c0 where "c0 = (if i = 0
            then search_impl_sht E T child (- beta) (- alpha) (depth - 1) (ply + 1) st
            else search_impl_sht E T child (- alpha - 1) (- alpha) (depth - 1) (ply + 1) st)"
  obtain r0 st0 where c0eq: "c0 = (r0, st0)" by (cases c0)
  define c1 where "c1 = (if 0 < i \<and> alpha < score (neg_result r0)
            then search_impl_sht E T child (- beta) (- alpha) (depth - 1) (ply + 1) st0
            else (r0, st0))"
  obtain r1 st1 where c1eq: "c1 = (r1, st1)" by (cases c1)
  have m0: "nodes (fst st) \<le> nodes (fst st0)"
    using 3(1) [OF child_def] 3(2) [OF child_def] c0eq
    by (cases "i = 0") (auto simp: c0_def)
  have m1: "nodes (fst st0) \<le> nodes (fst st1)"
    using 3(3) [OF child_def c0_def c0eq [symmetric]] c1eq
    by (cases "0 < i \<and> alpha < score (neg_result r0)") (auto simp: c1_def)
  have m: "nodes (fst st) \<le> nodes (fst st1)"
    using m0 m1 by simp
  note pre = child_def c0_def c0eq [symmetric] c1_def c1eq [symmetric] refl
  note ih4 = 3(4) [OF pre _ _ refl]
  note ih5 = 3(5) [OF pre]
  note ih6 = 3(6) [OF pre]
  have unfold: "search_moves_sht E T pos (m # ms) i pv_node alpha beta best_score pvl depth ply st =
     (let search_result = neg_result r1
      in if score search_result > best_score then
           (if score search_result > alpha then
              (let pvl1 = (if pv_node then pv_add m (pv search_result) else pvl) in
               if score search_result \<ge> beta
               then ((score search_result, score search_result, pvl1), st1)
               else search_moves_sht E T pos ms (i + 1) pv_node (score search_result) beta
                      (score search_result) pvl1 depth ply st1)
            else search_moves_sht E T pos ms (i + 1) pv_node alpha beta
                   (score search_result) pvl depth ply st1)
         else search_moves_sht E T pos ms (i + 1) pv_node alpha beta best_score pvl depth ply st1)"
    using c0eq c1eq
    by (simp add: child_def [symmetric] c0_def [symmetric] c1_def [symmetric] Let_def)
  show ?case
    unfolding unfold using m ih4 ih5 ih6
    by (auto simp: Let_def intro: order_trans)
qed

lemma search_mpi_nodes_mono:
  "nodes (fst st) \<le> nodes (fst (snd (search_impl_mpi E pos alpha beta depth ply st)))"
  "nodes (fst st) \<le> nodes (fst (snd (search_moves_mpi E pos ms move_num pv_node pos_hash alpha beta
       best bm pvl depth ply st)))"
proof (induction E pos alpha beta depth ply st
         and E pos ms move_num pv_node pos_hash alpha beta best bm pvl depth ply st
       rule: search_impl_mpi_search_moves_mpi.induct)
  case (1 E pos alpha beta depth ply st)
  have inc: "nodes (increment_nodes (fst st)) = nodes (fst st) + 1"
    by (simp add: increment_nodes_def)
  have q: "nodes (fst st) \<le> nodes (snd (qsearch_impl E pos alpha beta ply (fst st)))"
    by (rule qsearch_nodes_mono(1))
  show ?case
  proof (cases "depth \<le> 0")
    case True
    then show ?thesis
      using q by (simp add: search_impl_mpi.simps [of E pos alpha beta depth ply st] case_prod_beta)
  next
    case False
    show ?thesis
    proof (cases "entry_guards E None pos alpha beta ply (fst st)")
      case (Inl r)
      then show ?thesis
        using False by (simp add: search_impl_mpi.simps [of E pos alpha beta depth ply st])
    next
      case (Inr b)
      obtain a1 b1 where b: "b = (a1, b1)" by (cases b)
      define st1 where "st1 = (increment_nodes (fst st), snd st)"
      define nc where "nc = (if null_move_allowed E pos (a1 \<noteq> b1 - 1) b1 depth ply
            then let (nr, ya) = search_impl_mpi E (make_null_move E pos) (- b1) (- b1 + 1)
                                  (depth - 3 - 1) (ply + 1) st1
                 in (b1 \<le> score (neg_result nr), ya)
            else (False, st1))"
      obtain cut st2 where nceq: "nc = (cut, st2)" by (cases nc)
      note ih1 = 1(1) [OF False Inr b [symmetric] refl refl refl refl _ refl st1_def refl]
      note ih2 = 1(2) [OF False Inr b [symmetric] refl refl refl refl _ refl st1_def refl _ nc_def
                        nceq [symmetric]]
      have n1: "nodes (fst st) \<le> nodes (fst st1)"
        using inc by (simp add: st1_def)
      show ?thesis
      proof (cases "case mpi_probe (snd st) (hash E pos) of None \<Rightarrow> False
              | Some e \<Rightarrow> depth \<le> e_depth e \<and>
                  (e_flag e = EXACT \<or>
                   e_flag e = LOWER_BOUND \<and> b1 \<le> (case mpi_probe (snd st) (hash E pos) of None \<Rightarrow> 0
                      | Some e \<Rightarrow> if MAX_MATE_SCORE E \<le> e_score e then e_score e - int ply
                          else if e_score e \<le> - MAX_MATE_SCORE E then e_score e + int ply else e_score e) \<or>
                   e_flag e = UPPER_BOUND \<and> (case mpi_probe (snd st) (hash E pos) of None \<Rightarrow> 0
                      | Some e \<Rightarrow> if MAX_MATE_SCORE E \<le> e_score e then e_score e - int ply
                          else if e_score e \<le> - MAX_MATE_SCORE E then e_score e + int ply else e_score e) \<le> a1)")
        case True
        then show ?thesis
          using False Inr b
          by (simp add: search_impl_mpi.simps [of E pos alpha beta depth ply st] Let_def)
      next
        case nocut: False
        show ?thesis
        proof (cases "legal_move_list E pos = []")
          case True
          then show ?thesis
            using False Inr b nocut inc
            by (simp add: search_impl_mpi.simps [of E pos alpha beta depth ply st] Let_def)
        next
          case moves: False
          have n2: "nodes (fst st1) \<le> nodes (fst st2)"
          proof (cases "null_move_allowed E pos (a1 \<noteq> b1 - 1) b1 depth ply")
            case True
            then show ?thesis
              using ih1 [OF nocut moves True] nceq by (simp add: nc_def case_prod_beta)
          next
            case False
            then show ?thesis using nceq by (simp add: nc_def)
          qed
          have unfold: "search_impl_mpi E pos alpha beta depth ply st =
            (if cut then (\<lparr>score = b1, pv = None\<rparr>, st2)
             else (case search_moves_mpi E pos (sort_moves E pos (legal_move_list E pos)
                      (Some (case mpi_probe (snd st) (hash E pos) of None \<Rightarrow> Move 0
                             | Some e \<Rightarrow> if e_best_move e \<noteq> 0 then Move (e_best_move e) else Move 0)))
                      0 (a1 \<noteq> b1 - 1) (hash E pos) a1 b1 (- INFINITE E) (Move 0) [] depth ply st2 of
                     (Inl r, st3) \<Rightarrow> (r, st3)
                   | (Inr (best_score, best_move, alpha2, pvl), st3) \<Rightarrow>
                       (let flag = (if best_score \<le> alpha2 then UPPER_BOUND else EXACT);
                            store_score = (if best_score \<ge> MAX_MATE_SCORE E then best_score + int ply
                                           else if best_score \<le> - MAX_MATE_SCORE E then best_score - int ply
                                           else best_score)
                        in (\<lparr>score = best_score, pv = Some pvl\<rparr>,
                            (fst st3,
                             if move_value best_move \<noteq> 0
                             then tt_store (snd st3) (hash E pos) depth store_score best_move flag
                             else snd st3)))))"
            using False Inr b nocut moves nceq
            by (simp add: search_impl_mpi.simps [of E pos alpha beta depth ply st] Let_def
                  st1_def [symmetric] nc_def [symmetric])
          show ?thesis
          proof (cases cut)
            case True
            then show ?thesis unfolding unfold using n1 n2 by simp
          next
            case False
            have "nodes (fst st2) \<le> nodes (fst (snd (search_moves_mpi E pos (sort_moves E pos (legal_move_list E pos)
                      (Some (case mpi_probe (snd st) (hash E pos) of None \<Rightarrow> Move 0
                             | Some e \<Rightarrow> if e_best_move e \<noteq> 0 then Move (e_best_move e) else Move 0)))
                      0 (a1 \<noteq> b1 - 1) (hash E pos) a1 b1 (- INFINITE E) (Move 0) [] depth ply st2)))"
              using ih2 [OF nocut moves False] .
            then show ?thesis
              unfolding unfold using n1 n2 False
              by (auto simp: Let_def split: prod.splits sum.splits)
          qed
        qed
      qed
    qed
  qed
next
  case (2 E pos move_num pv_node pos_hash alpha beta best_score best_move pvl depth ply st)
  then show ?case by simp
next
  case (3 E pos m ms move_num pv_node pos_hash alpha beta best_score best_move pvl depth ply st)
  define to_pt where "to_pt = piece_type_on E pos (to_square E m)"
  define child where "child = make_move E pos m"
  define new_depth where "new_depth = (if 3 < move_num + 1 \<and> 2 < depth \<and> \<not> in_check E child \<and>
       to_pt = None \<and> type_of_move E m \<noteq> PROMOTION then max 1 (depth - 2) else depth - 1)"
  define c0 where "c0 = (if move_num + 1 = 1
            then search_impl_mpi E child (- beta) (- alpha) new_depth (ply + 1) st
            else search_impl_mpi E child (- alpha - 1) (- alpha) new_depth (ply + 1) st)"
  obtain r0 st0 where c0eq: "c0 = (r0, st0)" by (cases c0)
  define c1 where "c1 = (if 1 < move_num + 1 \<and> alpha < score (neg_result r0) \<and> new_depth < depth - 1
            then search_impl_mpi E child (- alpha - 1) (- alpha) (depth - 1) (ply + 1) st0
            else (r0, st0))"
  obtain r1 st1 where c1eq: "c1 = (r1, st1)" by (cases c1)
  define c2 where "c2 = (if 1 < move_num + 1 \<and> alpha < score (neg_result r0) \<and> alpha < score (neg_result r1)
            then search_impl_mpi E child (- beta) (- alpha) (depth - 1) (ply + 1) st1
            else (r1, st1))"
  obtain r2 st2 where c2eq: "c2 = (r2, st2)" by (cases c2)
  note p0 = to_pt_def child_def new_depth_def
  have m0: "nodes (fst st) \<le> nodes (fst st0)"
    using 3(1) [OF p0] 3(2) [OF p0] c0eq
    by (cases "move_num + 1 = 1") (auto simp: c0_def)
  have m1: "nodes (fst st0) \<le> nodes (fst st1)"
    using 3(3) [OF p0 c0_def c0eq [symmetric]] c1eq
    by (cases "1 < move_num + 1 \<and> alpha < score (neg_result r0) \<and> new_depth < depth - 1")
       (auto simp: c1_def)
  have m2: "nodes (fst st1) \<le> nodes (fst st2)"
    using 3(4) [OF p0 c0_def c0eq [symmetric] c1_def c1eq [symmetric]] c2eq
    by (cases "1 < move_num + 1 \<and> alpha < score (neg_result r0) \<and> alpha < score (neg_result r1)")
       (auto simp: c2_def)
  have m: "nodes (fst st) \<le> nodes (fst st2)"
    using m0 m1 m2 by simp
  note pre = p0 c0_def c0eq [symmetric] c1_def c1eq [symmetric] c2_def c2eq [symmetric] refl
  note ih5 = 3(5) [OF pre _ _ _ refl]
  note ih6 = 3(6) [OF pre]
  note ih7 = 3(7) [OF pre]
  have unfold: "search_moves_mpi E pos (m # ms) move_num pv_node pos_hash alpha beta best_score best_move
       pvl depth ply st =
     (let search_result = neg_result r2
      in if ply \<noteq> 0 \<and> stop_flag (fst st2) then (Inl \<lparr>score = 0, pv = None\<rparr>, st2)
         else if score search_result > best_score then
           (if score search_result > alpha then
              (let pvl1 = (if pv_node then pv_add m (pv search_result) else pvl) in
               if score search_result \<ge> beta
               then (Inr (score search_result, m, score search_result, pvl1),
                     (fst st2, tt_store (snd st2) pos_hash depth (score search_result) m LOWER_BOUND))
               else search_moves_mpi E pos ms (move_num + 1) pv_node pos_hash (score search_result) beta
                      (score search_result) m pvl1 depth ply st2)
            else search_moves_mpi E pos ms (move_num + 1) pv_node pos_hash alpha beta
                   (score search_result) m pvl depth ply st2)
         else search_moves_mpi E pos ms (move_num + 1) pv_node pos_hash alpha beta best_score best_move
                pvl depth ply st2)"
    by (simp only: search_moves_mpi.simps Let_def to_pt_def [symmetric] child_def [symmetric]
          new_depth_def [symmetric] c0_def [symmetric] c0eq c1_def [symmetric] c1eq
          c2_def [symmetric] c2eq prod.case)
  show ?case
    unfolding unfold using m ih5 ih6 ih7
    by (auto simp: Let_def intro: order_trans)
qed

section \<open>Runs of a node on the small instance\<close>

text \<open>Runs of the two variants with a table on position 1 of the small instance, whose
  only move leads to a quiet position of evaluation 0.\<close>

lemmas toy_simps = search_impl_mpi.simps search_impl_sht.simps qsearch_impl.simps entry_guards_def
  toy_def sg0_def mpi_probe_def tt_empty_def TABLE_SIZE_def mpi_clear_def default_entry_def
  sort_moves_def move_list_sort_def move_key_def increment_nodes_def neg_result_def pv_add_def
  null_move_allowed_def tt_store_def uint16_def toy_tt_def tt0_def Let_def

lemma mpi_node_full_window:
  "search_impl_mpi toy 1 (- 32000) 32000 1 0 (sg0, tt_empty) =
   (\<lparr>score = 0, pv = Some [Move 3]\<rparr>,
    (\<lparr>stop_flag = False, nodes = 2\<rparr>,
     tt_empty (1 := \<lparr>e_hash = 1, e_depth = 1, e_score = 0, e_best_move = 3, e_flag = UPPER_BOUND\<rparr>)))"
  by (simp add: toy_simps)

lemma mpi_node_beta_cutoff:
  "search_impl_mpi toy 1 (- 10) (- 5) 1 0 (sg0, tt_empty) =
   (\<lparr>score = - 5, pv = Some [Move 3]\<rparr>,
    (\<lparr>stop_flag = False, nodes = 2\<rparr>,
     tt_empty (1 := \<lparr>e_hash = 1, e_depth = 1, e_score = - 5, e_best_move = 3, e_flag = UPPER_BOUND\<rparr>)))"
  by (simp add: toy_simps)

lemma sht_node_full_window:
  "search_impl_sht toy toy_tt 1 (- 32000) 32000 1 0 (sg0, tt0) =
   (\<lparr>score = 0, pv = Some [Move 3]\<rparr>,
    (\<lparr>stop_flag = False, nodes = 2\<rparr>,
     tt0 (1 := \<lparr>get_key = 1, get_move = 0, get_score = 0, get_flag = 0, get_depth = 1\<rparr>)))"
  by (simp add: toy_simps)

lemma sht_node_fail_low:
  "search_impl_sht toy toy_tt 1 0 10 1 0 (sg0, tt0) =
   (\<lparr>score = 0, pv = Some []\<rparr>,
    (\<lparr>stop_flag = False, nodes = 2\<rparr>,
     tt0 (1 := \<lparr>get_key = 1, get_move = 0, get_score = 0, get_flag = 0, get_depth = 1\<rparr>)))"
  by (simp add: toy_simps)

section \<open>The table probe\<close>

text \<open>
  Past its guards, \<open>search_impl\<close> either returns from the table probe or expands the
  node. The two lemmas write this out for the shared-table variant and for the MPI
  variant.
\<close>

lemma search_impl_sht_unfold:
  assumes "depth > 0" and "entry_guards E (Some []) pos alpha beta ply (fst st) = Inr (a, b)"
  shows "search_impl_sht E T pos alpha beta depth ply st =
     (let e = tt_probe T (snd st) (hash E pos)
      in if get_key e = hash E pos \<and> a = b - 1 \<and> get_depth e \<ge> depth \<and>
            (get_flag e = FLAG_EXACT T \<or> (get_flag e = FLAG_LOWER T \<and> get_score e \<ge> b) \<or>
             (get_flag e = FLAG_UPPER T \<and> get_score e \<le> a))
         then (\<lparr>score = get_score e, pv = Some []\<rparr>, st)
         else expand_node_sht E T pos
                (if get_key e = hash E pos then Some (Move (get_move e)) else None) a b depth ply st)"
proof -
  define e where "e = tt_probe T (snd st) (hash E pos)"
  define cut where "cut \<longleftrightarrow> get_key e = hash E pos \<and> a = b - 1 \<and> get_depth e \<ge> depth \<and>
            (get_flag e = FLAG_EXACT T \<or> (get_flag e = FLAG_LOWER T \<and> get_score e \<ge> b) \<or>
             (get_flag e = FLAG_UPPER T \<and> get_score e \<le> a))"
  have code: "(get_key e = hash E pos \<and> \<not> a \<noteq> b - 1 \<and> depth \<le> get_depth e \<and>
             (get_flag e = FLAG_EXACT T \<or> (get_flag e = FLAG_LOWER T \<and> b \<le> get_score e) \<or>
              (get_flag e = FLAG_UPPER T \<and> get_score e \<le> a))) = cut"
    unfolding cut_def by blast
  have d: "(depth \<le> 0) = False" using assms(1) by simp
  have "search_impl_sht E T pos alpha beta depth ply st =
     (if cut then (\<lparr>score = get_score e, pv = Some []\<rparr>, st)
      else expand_node_sht E T pos
             (if get_key e = hash E pos then Some (Move (get_move e)) else None) a b depth ply st)"
    by (simp only: search_impl_sht.simps [of E T pos alpha beta depth ply st] assms(2) d if_False
          Let_def sum.case prod.case e_def [symmetric] code expand_node_sht_def)
  then show ?thesis
    by (simp only: Let_def e_def [symmetric] cut_def)
qed

lemma search_impl_mpi_unfold:
  assumes "depth > 0" and "entry_guards E None pos alpha beta ply (fst st) = Inr (a, b)"
  shows "search_impl_mpi E pos alpha beta depth ply st =
     (case mpi_probe (snd st) (hash E pos) of
        None \<Rightarrow> expand_node_mpi E pos (Move 0) a b depth ply st
      | Some e \<Rightarrow>
          if e_depth e \<ge> depth \<and>
             (e_flag e = EXACT \<or> (e_flag e = LOWER_BOUND \<and> tt_score_at E ply e \<ge> b) \<or>
              (e_flag e = UPPER_BOUND \<and> tt_score_at E ply e \<le> a))
          then (\<lparr>score = tt_score_at E ply e,
                 pv = Some (if e_best_move e \<noteq> 0 then [Move (e_best_move e)] else [])\<rparr>, st)
          else expand_node_mpi E pos (if e_best_move e \<noteq> 0 then Move (e_best_move e) else Move 0)
                 a b depth ply st)"
proof -
  have d: "(depth \<le> 0) = False" using assms(1) by simp
  show ?thesis
  proof (cases "mpi_probe (snd st) (hash E pos)")
    case None
    show ?thesis
      by (simp only: search_impl_mpi.simps [of E pos alpha beta depth ply st] assms(2) d if_False
            Let_def sum.case prod.case None option.case expand_node_mpi_def)
  next
    case (Some e)
    define cut where "cut \<longleftrightarrow> e_depth e \<ge> depth \<and>
             (e_flag e = EXACT \<or> (e_flag e = LOWER_BOUND \<and> tt_score_at E ply e \<ge> b) \<or>
              (e_flag e = UPPER_BOUND \<and> tt_score_at E ply e \<le> a))"
    have sc: "(if MAX_MATE_SCORE E \<le> e_score e then e_score e - int ply
               else if e_score e \<le> - MAX_MATE_SCORE E then e_score e + int ply else e_score e) =
              tt_score_at E ply e"
      by (simp only: tt_score_at_def)
    have code: "(depth \<le> e_depth e \<and>
             (e_flag e = EXACT \<or> (e_flag e = LOWER_BOUND \<and> b \<le> tt_score_at E ply e) \<or>
              (e_flag e = UPPER_BOUND \<and> tt_score_at E ply e \<le> a))) = cut"
      unfolding cut_def by blast
    have "search_impl_mpi E pos alpha beta depth ply st =
       (if cut then (\<lparr>score = tt_score_at E ply e,
                 pv = Some (if e_best_move e \<noteq> 0 then [Move (e_best_move e)] else [])\<rparr>, st)
        else expand_node_mpi E pos (if e_best_move e \<noteq> 0 then Move (e_best_move e) else Move 0)
                 a b depth ply st)"
      by (simp only: search_impl_mpi.simps [of E pos alpha beta depth ply st] assms(2) d if_False
            Let_def sum.case prod.case Some option.case sc code expand_node_mpi_def)
    then show ?thesis
      by (simp only: Some option.case cut_def)
  qed
qed

lemma expand_node_sht_counts:
  "nodes (fst st) < nodes (fst (snd (expand_node_sht E T pos tt_move a b depth ply st)))"
proof -
  have inc: "nodes (increment_nodes (fst st)) = nodes (fst st) + 1"
    by (simp add: increment_nodes_def)
  have "nodes (fst (increment_nodes (fst st), snd st)) \<le>
        nodes (fst (snd (search_moves_sht E T pos ms 0 pvn a b bs [] depth ply (increment_nodes (fst st), snd st))))"
    for ms pvn bs
    by (rule search_sht_nodes_mono(2))
  then show ?thesis
    using inc by (auto simp: expand_node_sht_def Let_def case_prod_beta intro: less_le_trans)
qed

lemma expand_node_mpi_counts:
  "nodes (fst st) < nodes (fst (snd (expand_node_mpi E pos tt_move a b depth ply st)))"
proof -
  define st1 where "st1 = (increment_nodes (fst st), snd st)"
  define nc where "nc = (if null_move_allowed E pos (a \<noteq> b - 1) b depth ply then
                     (case search_impl_mpi E (make_null_move E pos) (- b) (- b + 1)
                                        (depth - 3 - 1) (ply + 1) st1 of
                        (nr, st') \<Rightarrow> (score (neg_result nr) \<ge> b, st'))
                   else (False, st1))"
  obtain cut st2 where nceq: "nc = (cut, st2)" by (cases nc)
  define lp where "lp = search_moves_mpi E pos (sort_moves E pos (legal_move_list E pos) (Some tt_move)) 0
      (a \<noteq> b - 1) (hash E pos) a b (- INFINITE E) (Move 0) [] depth ply st2"
  obtain res st3 where lpeq: "lp = (res, st3)" by (cases lp)
  have inc: "nodes (fst st) < nodes (fst st1)"
    by (simp add: increment_nodes_def st1_def)
  have n2: "nodes (fst st1) \<le> nodes (fst st2)"
  proof (cases "null_move_allowed E pos (a \<noteq> b - 1) b depth ply")
    case True
    have "nodes (fst st1) \<le> nodes (fst (snd (search_impl_mpi E (make_null_move E pos) (- b) (- b + 1)
                                        (depth - 3 - 1) (ply + 1) st1)))"
      by (rule search_mpi_nodes_mono(1))
    then show ?thesis using True nceq by (simp add: nc_def case_prod_beta)
  next
    case False
    then show ?thesis using nceq by (simp add: nc_def)
  qed
  have n3: "nodes (fst st2) \<le> nodes (fst st3)"
    using search_mpi_nodes_mono(2) [of st2 E pos "sort_moves E pos (legal_move_list E pos) (Some tt_move)" 0
        "a \<noteq> b - 1" "hash E pos" a b "- INFINITE E" "Move 0" "[]" depth ply] lpeq
    by (simp add: lp_def)
  have unfold: "expand_node_mpi E pos tt_move a b depth ply st =
     (if legal_move_list E pos = [] then
           (\<lparr>score = (if in_check E pos then - MATE_SCORE E + int ply else 0), pv = None\<rparr>, st1)
      else if cut then (\<lparr>score = b, pv = None\<rparr>, st2)
      else (case res of
              Inl r \<Rightarrow> (r, st3)
            | Inr (best_score, best_move, alpha2, pvl) \<Rightarrow>
                      (let flag = (if best_score \<le> alpha2 then UPPER_BOUND else EXACT);
                           store_score = (if best_score \<ge> MAX_MATE_SCORE E then best_score + int ply
                                          else if best_score \<le> - MAX_MATE_SCORE E then best_score - int ply
                                          else best_score)
                       in (\<lparr>score = best_score, pv = Some pvl\<rparr>,
                           (fst st3,
                            if move_value best_move \<noteq> 0
                            then tt_store (snd st3) (hash E pos) depth store_score best_move flag
                            else snd st3)))))"
    by (simp only: expand_node_mpi_def Let_def st1_def [symmetric] nc_def [symmetric] nceq prod.case
          lp_def [symmetric] lpeq)
  show ?thesis
    unfolding unfold using inc n2 n3
    by (auto simp: Let_def split: sum.splits prod.splits)
qed

text \<open>
  Claim C1 (table probe), as amended. The spec states that a probe that hits returns
  early with the stored score only at a non-PV node (\<open>alpha = beta - 1\<close>) with stored
  depth at least the remaining depth and a permitting bound, and that a PV node never
  returns early and keeps the stored move for move ordering. An early return is
  observed on the node counter: the node is not counted.

  This holds in the shared-table variant (first conjunct: the probe returns early
  exactly under the three conditions; at a PV node the node is expanded with the stored
  move as \<open>tt_move\<close>). The MPI variant (second conjunct) has no PV test: at every
  node a hit with sufficient depth and permitting bound returns early, the bound is
  tested on the stored score shifted by the ply (mate scores), that shifted score is
  returned, and the returned principal variation holds the stored move when it is not 0.
  \<open>a\<close> and \<open>b\<close> are the window after the guards of the node.
\<close>

theorem tt_probe_early_return:
  assumes "depth > 0"
  shows "(entry_guards E (Some []) pos alpha beta ply (fst st) = Inr (a, b) \<and>
          tt_probe T (snd st) (hash E pos) = e \<and> get_key e = hash E pos \<longrightarrow>
            ((nodes (fst (snd (search_impl_sht E T pos alpha beta depth ply st))) = nodes (fst st)) =
               (a = b - 1 \<and> get_depth e \<ge> depth \<and>
                (get_flag e = FLAG_EXACT T \<or> (get_flag e = FLAG_LOWER T \<and> get_score e \<ge> b) \<or>
                 (get_flag e = FLAG_UPPER T \<and> get_score e \<le> a)))) \<and>
            (a = b - 1 \<and> get_depth e \<ge> depth \<and>
                (get_flag e = FLAG_EXACT T \<or> (get_flag e = FLAG_LOWER T \<and> get_score e \<ge> b) \<or>
                 (get_flag e = FLAG_UPPER T \<and> get_score e \<le> a)) \<longrightarrow>
               search_impl_sht E T pos alpha beta depth ply st = (\<lparr>score = get_score e, pv = Some []\<rparr>, st)) \<and>
            (a \<noteq> b - 1 \<longrightarrow>
               search_impl_sht E T pos alpha beta depth ply st =
                 expand_node_sht E T pos (Some (Move (get_move e))) a b depth ply st)) \<and>
         (entry_guards E None pos alpha beta ply (fst mst) = Inr (a, b) \<and>
          mpi_probe (snd mst) (hash E pos) = Some me \<longrightarrow>
            ((nodes (fst (snd (search_impl_mpi E pos alpha beta depth ply mst))) = nodes (fst mst)) =
               (e_depth me \<ge> depth \<and>
                (e_flag me = EXACT \<or> (e_flag me = LOWER_BOUND \<and> tt_score_at E ply me \<ge> b) \<or>
                 (e_flag me = UPPER_BOUND \<and> tt_score_at E ply me \<le> a)))) \<and>
            (e_depth me \<ge> depth \<and>
                (e_flag me = EXACT \<or> (e_flag me = LOWER_BOUND \<and> tt_score_at E ply me \<ge> b) \<or>
                 (e_flag me = UPPER_BOUND \<and> tt_score_at E ply me \<le> a)) \<longrightarrow>
               search_impl_mpi E pos alpha beta depth ply mst =
                 (\<lparr>score = tt_score_at E ply me,
                   pv = Some (if e_best_move me \<noteq> 0 then [Move (e_best_move me)] else [])\<rparr>, mst)) \<and>
            (\<not> (e_depth me \<ge> depth \<and>
                (e_flag me = EXACT \<or> (e_flag me = LOWER_BOUND \<and> tt_score_at E ply me \<ge> b) \<or>
                 (e_flag me = UPPER_BOUND \<and> tt_score_at E ply me \<le> a))) \<longrightarrow>
               search_impl_mpi E pos alpha beta depth ply mst =
                 expand_node_mpi E pos (if e_best_move me \<noteq> 0 then Move (e_best_move me) else Move 0)
                   a b depth ply mst))"
proof -
  have part1: "((nodes (fst (snd (search_impl_sht E T pos alpha beta depth ply st))) = nodes (fst st)) =
               (a = b - 1 \<and> get_depth e \<ge> depth \<and>
                (get_flag e = FLAG_EXACT T \<or> (get_flag e = FLAG_LOWER T \<and> get_score e \<ge> b) \<or>
                 (get_flag e = FLAG_UPPER T \<and> get_score e \<le> a)))) \<and>
            (a = b - 1 \<and> get_depth e \<ge> depth \<and>
                (get_flag e = FLAG_EXACT T \<or> (get_flag e = FLAG_LOWER T \<and> get_score e \<ge> b) \<or>
                 (get_flag e = FLAG_UPPER T \<and> get_score e \<le> a)) \<longrightarrow>
               search_impl_sht E T pos alpha beta depth ply st = (\<lparr>score = get_score e, pv = Some []\<rparr>, st)) \<and>
            (a \<noteq> b - 1 \<longrightarrow>
               search_impl_sht E T pos alpha beta depth ply st =
                 expand_node_sht E T pos (Some (Move (get_move e))) a b depth ply st)"
    if g: "entry_guards E (Some []) pos alpha beta ply (fst st) = Inr (a, b)"
      and p: "tt_probe T (snd st) (hash E pos) = e" and k: "get_key e = hash E pos"
  proof -
    define cut where "cut \<longleftrightarrow> a = b - 1 \<and> get_depth e \<ge> depth \<and>
                (get_flag e = FLAG_EXACT T \<or> (get_flag e = FLAG_LOWER T \<and> get_score e \<ge> b) \<or>
                 (get_flag e = FLAG_UPPER T \<and> get_score e \<le> a))"
    have c: "(get_key e = hash E pos \<and> a = b - 1 \<and> get_depth e \<ge> depth \<and>
                (get_flag e = FLAG_EXACT T \<or> (get_flag e = FLAG_LOWER T \<and> get_score e \<ge> b) \<or>
                 (get_flag e = FLAG_UPPER T \<and> get_score e \<le> a))) = cut"
      unfolding cut_def using k by blast
    have eq: "search_impl_sht E T pos alpha beta depth ply st =
       (if cut then (\<lparr>score = get_score e, pv = Some []\<rparr>, st)
        else expand_node_sht E T pos (Some (Move (get_move e))) a b depth ply st)"
    proof -
      have kk: "(get_key e = hash E pos) = True"
        using k by simp
      have "search_impl_sht E T pos alpha beta depth ply st =
         (if cut then (\<lparr>score = get_score e, pv = Some []\<rparr>, st)
          else expand_node_sht E T pos
                 (if get_key e = hash E pos then Some (Move (get_move e)) else None) a b depth ply st)"
        by (simp only: search_impl_sht_unfold [OF assms g] p Let_def c)
      then show ?thesis
        by (simp only: kk if_True)
    qed
    have cnt: "nodes (fst (snd (expand_node_sht E T pos tm a b depth ply st))) \<noteq> nodes (fst st)" for tm
      using expand_node_sht_counts [of st E T pos tm a b depth ply] by simp
    have pvn: "a \<noteq> b - 1 \<Longrightarrow> \<not> cut"
      by (simp add: cut_def)
    have "((nodes (fst (snd (search_impl_sht E T pos alpha beta depth ply st))) = nodes (fst st)) = cut) \<and>
          (cut \<longrightarrow> search_impl_sht E T pos alpha beta depth ply st = (\<lparr>score = get_score e, pv = Some []\<rparr>, st)) \<and>
          (a \<noteq> b - 1 \<longrightarrow> search_impl_sht E T pos alpha beta depth ply st =
                 expand_node_sht E T pos (Some (Move (get_move e))) a b depth ply st)"
      using cnt pvn by (cases cut) (auto simp: eq)
    then show ?thesis
      unfolding cut_def .
  qed
  have part2: "((nodes (fst (snd (search_impl_mpi E pos alpha beta depth ply mst))) = nodes (fst mst)) =
               (e_depth me \<ge> depth \<and>
                (e_flag me = EXACT \<or> (e_flag me = LOWER_BOUND \<and> tt_score_at E ply me \<ge> b) \<or>
                 (e_flag me = UPPER_BOUND \<and> tt_score_at E ply me \<le> a)))) \<and>
            (e_depth me \<ge> depth \<and>
                (e_flag me = EXACT \<or> (e_flag me = LOWER_BOUND \<and> tt_score_at E ply me \<ge> b) \<or>
                 (e_flag me = UPPER_BOUND \<and> tt_score_at E ply me \<le> a)) \<longrightarrow>
               search_impl_mpi E pos alpha beta depth ply mst =
                 (\<lparr>score = tt_score_at E ply me,
                   pv = Some (if e_best_move me \<noteq> 0 then [Move (e_best_move me)] else [])\<rparr>, mst)) \<and>
            (\<not> (e_depth me \<ge> depth \<and>
                (e_flag me = EXACT \<or> (e_flag me = LOWER_BOUND \<and> tt_score_at E ply me \<ge> b) \<or>
                 (e_flag me = UPPER_BOUND \<and> tt_score_at E ply me \<le> a))) \<longrightarrow>
               search_impl_mpi E pos alpha beta depth ply mst =
                 expand_node_mpi E pos (if e_best_move me \<noteq> 0 then Move (e_best_move me) else Move 0)
                   a b depth ply mst)"
    if g: "entry_guards E None pos alpha beta ply (fst mst) = Inr (a, b)"
      and p: "mpi_probe (snd mst) (hash E pos) = Some me"
  proof -
    define cut where "cut \<longleftrightarrow> e_depth me \<ge> depth \<and>
                (e_flag me = EXACT \<or> (e_flag me = LOWER_BOUND \<and> tt_score_at E ply me \<ge> b) \<or>
                 (e_flag me = UPPER_BOUND \<and> tt_score_at E ply me \<le> a))"
    have eq: "search_impl_mpi E pos alpha beta depth ply mst =
       (if cut then (\<lparr>score = tt_score_at E ply me,
                   pv = Some (if e_best_move me \<noteq> 0 then [Move (e_best_move me)] else [])\<rparr>, mst)
        else expand_node_mpi E pos (if e_best_move me \<noteq> 0 then Move (e_best_move me) else Move 0)
                   a b depth ply mst)"
      by (simp only: search_impl_mpi_unfold [OF assms g] p option.case cut_def)
    have cnt: "nodes (fst (snd (expand_node_mpi E pos tm a b depth ply mst))) \<noteq> nodes (fst mst)" for tm
      using expand_node_mpi_counts [of mst E pos tm a b depth ply] by simp
    have "((nodes (fst (snd (search_impl_mpi E pos alpha beta depth ply mst))) = nodes (fst mst)) = cut) \<and>
          (cut \<longrightarrow> search_impl_mpi E pos alpha beta depth ply mst =
                 (\<lparr>score = tt_score_at E ply me,
                   pv = Some (if e_best_move me \<noteq> 0 then [Move (e_best_move me)] else [])\<rparr>, mst)) \<and>
          (\<not> cut \<longrightarrow> search_impl_mpi E pos alpha beta depth ply mst =
                 expand_node_mpi E pos (if e_best_move me \<noteq> 0 then Move (e_best_move me) else Move 0)
                   a b depth ply mst)"
      using cnt by (cases cut) (simp_all add: eq)
    then show ?thesis
      unfolding cut_def .
  qed
  show ?thesis
    using part1 part2 by blast
qed

text \<open>
  The tables left by the two searches of position 1 each hold one entry, for position 1:
  depth 1, score 0. The entry of the MPI variant has the bound \<open>UPPER_BOUND\<close> and the
  move 3; the entry of the shared-table variant has the bound \<open>FLAG_EXACT\<close>.
\<close>

lemma tt_searched_eq:
  "tt_searched =
     tt_empty (1 := \<lparr>e_hash = 1, e_depth = 1, e_score = 0, e_best_move = 3, e_flag = UPPER_BOUND\<rparr>)"
  unfolding tt_searched_def mpi_node_full_window by simp

lemma tt_searched_sht_eq:
  "tt_searched_sht =
     tt0 (1 := \<lparr>get_key = 1, get_move = 0, get_score = 0, get_flag = 0, get_depth = 1\<rparr>)"
  unfolding tt_searched_sht_def sht_node_full_window by simp

theorem tt_probe_early_return_witness:
  "(1::int) > 0 \<and>
   entry_guards toy (Some []) 1 9 10 1 sg0 = Inr (9, 10) \<and>
   tt_probe toy_tt tt_searched_sht (hash toy 1) =
     \<lparr>get_key = 1, get_move = 0, get_score = 0, get_flag = FLAG_EXACT toy_tt, get_depth = 1\<rparr> \<and>
   search_impl_sht toy toy_tt 1 9 10 1 1 (sg0, tt_searched_sht) =
     (\<lparr>score = 0, pv = Some []\<rparr>, (sg0, tt_searched_sht)) \<and>
   entry_guards toy None 1 9 10 1 sg0 = Inr (9, 10) \<and>
   mpi_probe tt_searched (hash toy 1) =
     Some \<lparr>e_hash = 1, e_depth = 1, e_score = 0, e_best_move = 3, e_flag = UPPER_BOUND\<rparr> \<and>
   search_impl_mpi toy 1 9 10 1 1 (sg0, tt_searched) =
     (\<lparr>score = 0, pv = Some [Move 3]\<rparr>, (sg0, tt_searched))"
  using tt_probe_early_return [where depth = 1 and E = toy and pos = 1 and alpha = 9 and beta = 10
      and ply = 1 and st = "(sg0, tt_searched_sht)" and a = 9 and b = 10 and T = toy_tt
      and e = "tt_probe toy_tt tt_searched_sht (hash toy 1)" and mst = "(sg0, tt_searched)"
      and me = "\<lparr>e_hash = 1, e_depth = 1, e_score = 0, e_best_move = 3, e_flag = UPPER_BOUND\<rparr>"]
  by (simp add: entry_guards_def toy_def sg0_def toy_tt_def tt_searched_sht_eq tt0_def mpi_probe_def
        tt_searched_eq tt_empty_def TABLE_SIZE_def mpi_clear_def default_entry_def tt_score_at_def)

text \<open>
  The counterexample to the claim as the spec has it: the table is the one the MPI
  variant leaves after searching position 1; position 1 is then a node at ply 2 with the
  window \<open>[0, 30998]\<close>, a PV node, at the same depth. The probe hits and the node
  returns the stored score and move without being counted.
\<close>

theorem tt_probe_early_return_counterexample:
  "tt_searched = snd (snd (search_impl_mpi toy 1 (- 32000) 32000 1 0 (sg0, tt_empty))) \<and>
   entry_guards toy None 1 0 30998 2 sg0 = Inr (0, 30998) \<and>
   (0 :: int) \<noteq> 30998 - 1 \<and>
   mpi_probe tt_searched (hash toy 1) =
     Some \<lparr>e_hash = 1, e_depth = 1, e_score = 0, e_best_move = 3, e_flag = UPPER_BOUND\<rparr> \<and>
   search_impl_mpi toy 1 0 30998 1 2 (sg0, tt_searched) =
     (\<lparr>score = 0, pv = Some [Move 3]\<rparr>, (sg0, tt_searched))"
proof -
  have run: "search_impl_mpi toy 1 0 30998 1 2 (sg0, tt_searched) =
     (\<lparr>score = 0, pv = Some [Move 3]\<rparr>, (sg0, tt_searched))"
    by (simp add: search_impl_mpi.simps entry_guards_def toy_def sg0_def mpi_probe_def tt_searched_eq
          tt_empty_def TABLE_SIZE_def mpi_clear_def default_entry_def)
  have probe: "mpi_probe tt_searched (hash toy 1) =
     Some \<lparr>e_hash = 1, e_depth = 1, e_score = 0, e_best_move = 3, e_flag = UPPER_BOUND\<rparr>"
    by (simp add: toy_def mpi_probe_def tt_searched_eq tt_empty_def TABLE_SIZE_def mpi_clear_def
          default_entry_def)
  have guards: "entry_guards toy None 1 0 30998 2 sg0 = Inr (0, 30998)"
    by (simp add: entry_guards_def toy_def sg0_def)
  show ?thesis
    using run probe guards by (simp add: tt_searched_def)
qed

section \<open>The table write at the end of a node\<close>

text \<open>
  Claim C2 (table write). The spec states that the entry written when the move loop ends
  has bound LOWER if \<open>best_score \<ge> beta\<close>, UPPER if \<open>best_score\<close> is at most the alpha
  passed in at node entry, EXACT otherwise, and that it stores the best move found. The
  code does not do this.

  MPI variant: the flag after the loop is computed from the alpha the loop has already
  raised to \<open>best_score\<close>, so \<open>best_score <= alpha\<close> always holds and the entry is
  always \<open>UPPER_BOUND\<close>; after a beta cutoff this second store overwrites the
  \<open>LOWER_BOUND\<close> entry stored in the loop. With the window \<open>[-32000, 32000]\<close> and
  \<open>best_score = 0\<close> the entry is \<open>UPPER_BOUND\<close> (EXACT by the claim); with the window
  \<open>[-10, -5]\<close> and \<open>best_score = -5 \<ge> beta\<close> it is \<open>UPPER_BOUND\<close> (LOWER by the claim).

  Shared-table variant: the move written is the move the probe found (0 when it found
  none), not the best move of the node: the node returns the principal variation
  \<open>[Move 3]\<close> and stores move 0. The test for UPPER is \<open>best_score < alpha\<close>, so with
  \<open>best_score\<close> equal to the original alpha (window \<open>[0, 10]\<close>, \<open>best_score = 0\<close>) the
  entry is EXACT (UPPER by the claim).
\<close>

theorem tt_write_at_node_end:
  "fst (search_impl_mpi toy 1 (- 32000) 32000 1 0 (sg0, tt_empty)) = \<lparr>score = 0, pv = Some [Move 3]\<rparr> \<and>
   mpi_probe (snd (snd (search_impl_mpi toy 1 (- 32000) 32000 1 0 (sg0, tt_empty)))) (hash toy 1) =
     Some \<lparr>e_hash = 1, e_depth = 1, e_score = 0, e_best_move = 3, e_flag = UPPER_BOUND\<rparr> \<and>
   fst (search_impl_mpi toy 1 (- 10) (- 5) 1 0 (sg0, tt_empty)) = \<lparr>score = - 5, pv = Some [Move 3]\<rparr> \<and>
   mpi_probe (snd (snd (search_impl_mpi toy 1 (- 10) (- 5) 1 0 (sg0, tt_empty)))) (hash toy 1) =
     Some \<lparr>e_hash = 1, e_depth = 1, e_score = - 5, e_best_move = 3, e_flag = UPPER_BOUND\<rparr> \<and>
   fst (search_impl_sht toy toy_tt 1 (- 32000) 32000 1 0 (sg0, tt0)) = \<lparr>score = 0, pv = Some [Move 3]\<rparr> \<and>
   tt_probe toy_tt (snd (snd (search_impl_sht toy toy_tt 1 (- 32000) 32000 1 0 (sg0, tt0)))) (hash toy 1) =
     \<lparr>get_key = 1, get_move = 0, get_score = 0, get_flag = FLAG_EXACT toy_tt, get_depth = 1\<rparr> \<and>
   fst (search_impl_sht toy toy_tt 1 0 10 1 0 (sg0, tt0)) = \<lparr>score = 0, pv = Some []\<rparr> \<and>
   tt_probe toy_tt (snd (snd (search_impl_sht toy toy_tt 1 0 10 1 0 (sg0, tt0)))) (hash toy 1) =
     \<lparr>get_key = 1, get_move = 0, get_score = 0, get_flag = FLAG_EXACT toy_tt, get_depth = 1\<rparr>"
  unfolding mpi_node_full_window mpi_node_beta_cutoff sht_node_full_window sht_node_fail_low
  by (simp add: mpi_probe_def TABLE_SIZE_def toy_def toy_tt_def)

section \<open>Root splitting: the protocol between master and workers\<close>

lemma collect_results_step:
  "collect_results E nprocs pos depth moves mv sg cl =
     (if completed_moves mv < length moves then
        (case recv_any_source nprocs cl of
           None \<Rightarrow> None
         | Some (worker, cl1) \<Rightarrow>
             (case parse_reply (c_outbox cl1 worker) of
                None \<Rightarrow> None
              | Some reply \<Rightarrow>
                  (case master_step E pos depth moves worker reply (mv, sg, cl1) of
                     (mv', sg', cl') \<Rightarrow> collect_results E nprocs pos depth moves mv' sg' cl')))
      else Some (mv, sg, cl))"
  by (auto simp: collect_results.simps [of E nprocs pos depth moves mv sg cl] parse_reply_def
        master_step_def Let_def
      split: option.splits list.splits wire.splits)

lemma deliver_sent: "c_sent (deliver E w msgs cl) = c_sent cl @ map (Pair w) msgs"
  by (simp add: deliver_def Let_def case_prod_beta)

lemma send_work_sent:
  "c_sent (send_work E pos depth m w cl) =
     c_sent cl @ [(w, Wint (int (length (fen E (make_move E pos m))))),
                  (w, Wchars (fen E (make_move E pos m))), (w, Wint depth)]"
  by (simp add: send_work_def Let_def deliver_sent)

lemma recv_any_source_sent:
  "recv_any_source nprocs cl = Some (w, cl1) \<Longrightarrow> c_sent cl1 = c_sent cl"
  by (auto simp: recv_any_source_def Let_def split: if_splits list.splits)

lemma initial_work_sent:
  assumes "depth \<noteq> - 1"
  shows "\<exists>new. c_sent (snd (initial_work E pos depth moves ws (mv, cl))) = c_sent cl @ new \<and>
               Wint (- 1) \<notin> snd ` set new"
proof (induction ws arbitrary: mv cl)
  case Nil
  then show ?case by simp
next
  case (Cons worker ws)
  show ?case
  proof (cases "move_idx mv < length moves")
    case True
    define mv1 where "mv1 = mv\<lparr>worker_busy := (worker_busy mv)(worker := True),
                   worker_moves := (worker_moves mv)(worker := moves ! move_idx mv),
                   move_idx := move_idx mv + 1\<rparr>"
    define cl1 where "cl1 = send_work E pos depth (moves ! move_idx mv) worker cl"
    obtain new where new: "c_sent (snd (initial_work E pos depth moves ws (mv1, cl1))) = c_sent cl1 @ new"
        "Wint (- 1) \<notin> snd ` set new"
      using Cons.IH [of mv1 cl1] by blast
    have "c_sent (snd (initial_work E pos depth moves (worker # ws) (mv, cl))) =
          c_sent cl @ ([(worker, Wint (int (length (fen E (make_move E pos (moves ! move_idx mv)))))),
                  (worker, Wchars (fen E (make_move E pos (moves ! move_idx mv)))), (worker, Wint depth)] @ new)"
      using True new(1) by (simp add: Let_def mv1_def cl1_def send_work_sent)
    moreover have "Wint (- 1) \<notin> snd ` set ([(worker, Wint (int (length (fen E (make_move E pos (moves ! move_idx mv)))))),
                  (worker, Wchars (fen E (make_move E pos (moves ! move_idx mv)))), (worker, Wint depth)] @ new)"
      using new(2) assms by auto
    ultimately show ?thesis by blast
  next
    case False
    define mv1 where "mv1 = mv\<lparr>worker_busy := (worker_busy mv)(worker := False)\<rparr>"
    define cl1 where "cl1 = deliver E worker [Wint 0] cl"
    obtain new where new: "c_sent (snd (initial_work E pos depth moves ws (mv1, cl1))) = c_sent cl1 @ new"
        "Wint (- 1) \<notin> snd ` set new"
      using Cons.IH [of mv1 cl1] by blast
    have "c_sent (snd (initial_work E pos depth moves (worker # ws) (mv, cl))) =
          c_sent cl @ ([(worker, Wint 0)] @ new)"
      using False new(1) by (simp add: Let_def mv1_def cl1_def deliver_sent)
    moreover have "Wint (- 1) \<notin> snd ` set ([(worker, Wint 0)] @ new)"
      using new(2) by auto
    ultimately show ?thesis by blast
  qed
qed

lemma master_step_sent:
  assumes "depth \<noteq> - 1"
    and "master_step E pos depth moves worker reply (mv, sg, cl1) = (mv', sg', cl')"
  shows "\<exists>new. c_sent cl' = c_sent cl1 @ new \<and> Wint (- 1) \<notin> snd ` set new"
proof -
  obtain result_score worker_nodes pv_length pv_values rest1
    where reply: "reply = (result_score, worker_nodes, pv_length, pv_values, rest1)"
    by (cases reply)
  show ?thesis
  proof (cases "move_idx mv < length moves")
    case True
    then have "c_sent cl' = c_sent cl1 @
        [(worker, Wint (int (length (fen E (make_move E pos (moves ! move_idx mv)))))),
         (worker, Wchars (fen E (make_move E pos (moves ! move_idx mv)))), (worker, Wint depth)]"
      using assms(2) by (auto simp: master_step_def reply Let_def send_work_sent)
    moreover have "Wint (- 1) \<notin> snd ` set
        [(worker, Wint (int (length (fen E (make_move E pos (moves ! move_idx mv)))))),
         (worker, Wchars (fen E (make_move E pos (moves ! move_idx mv)))), (worker, Wint depth)]"
      using assms(1) by auto
    ultimately show ?thesis by blast
  next
    case False
    then have "c_sent cl' = c_sent cl1 @ [(worker, Wint 0)]"
      using assms(2) by (auto simp: master_step_def reply Let_def deliver_sent)
    moreover have "Wint (- 1) \<notin> snd ` set [(worker, Wint 0)]"
      by simp
    ultimately show ?thesis by blast
  qed
qed

lemma collect_results_sent:
  assumes "depth \<noteq> - 1"
  shows "collect_results E nprocs pos depth moves mv sg cl = Some (mv', sg', cl') \<Longrightarrow>
         \<exists>new. c_sent cl' = c_sent cl @ new \<and> Wint (- 1) \<notin> snd ` set new"
proof (induction "length moves - completed_moves mv" arbitrary: mv sg cl)
  case 0
  have "\<not> completed_moves mv < length moves"
    using 0(1) by simp
  then have "collect_results E nprocs pos depth moves mv sg cl = Some (mv, sg, cl)"
    by (simp add: collect_results_step [of E nprocs pos depth moves mv sg cl])
  with 0(2) show ?case by simp
next
  case (Suc n)
  then have lt: "completed_moves mv < length moves" by simp
  obtain worker cl1 where recv: "recv_any_source nprocs cl = Some (worker, cl1)"
    using Suc(3) lt
    by (auto simp: collect_results_step [of E nprocs pos depth moves mv sg cl] split: option.splits)
  obtain reply where reply: "parse_reply (c_outbox cl1 worker) = Some reply"
    using Suc(3) lt recv
    by (auto simp: collect_results_step [of E nprocs pos depth moves mv sg cl] split: option.splits)
  obtain mv1 sg1 cl2 where step: "master_step E pos depth moves worker reply (mv, sg, cl1) = (mv1, sg1, cl2)"
    by (cases "master_step E pos depth moves worker reply (mv, sg, cl1)")
  have rest: "collect_results E nprocs pos depth moves mv1 sg1 cl2 = Some (mv', sg', cl')"
    using Suc(3) lt recv reply step
    by (simp add: collect_results_step [of E nprocs pos depth moves mv sg cl])
  have cm: "completed_moves mv1 = completed_moves mv + 1"
    using step by (auto simp: master_step_def Let_def split: prod.splits if_splits)
  have "n = length moves - completed_moves mv1"
    using Suc(2) cm by simp
  from Suc(1) [OF this rest]
  obtain new2 where new2: "c_sent cl' = c_sent cl2 @ new2" "Wint (- 1) \<notin> snd ` set new2"
    by blast
  obtain new1 where new1: "c_sent cl2 = c_sent cl1 @ new1" "Wint (- 1) \<notin> snd ` set new1"
    using master_step_sent [OF assms step] by blast
  have "c_sent cl' = c_sent cl @ (new1 @ new2)"
    using new1(1) new2(1) recv_any_source_sent [OF recv] by simp
  moreover have "Wint (- 1) \<notin> snd ` set (new1 @ new2)"
    using new1(2) new2(2) by auto
  ultimately show ?case by blast
qed

lemma terminate_all_sent:
  "c_sent (fold (\<lambda>worker. deliver E worker [Wint (- 1)]) ws cl) =
     c_sent cl @ map (\<lambda>worker. (worker, Wint (- 1))) ws"
  by (induction ws arbitrary: cl) (simp_all add: deliver_sent)

lemma search_mpi_sent:
  assumes "legal_move_list E pos \<noteq> []" and "depth \<noteq> - 1"
    and "search_mpi E 0 nprocs pos depth st cl = Some (r, st', cl')"
  shows "\<exists>new. c_sent cl' = c_sent cl @ new \<and> Wint (- 1) \<notin> snd ` set new"
proof -
  define moves where "moves = sort_moves E pos (legal_move_list E pos) None"
  have ne: "moves \<noteq> []"
    using assms(1) set_sort_moves [of E pos "legal_move_list E pos" None]
    by (auto simp: moves_def)
  show ?thesis
  proof (cases "nprocs = 1")
    case True
    then have "cl' = cl"
      using assms(3) ne
      by (auto simp: search_mpi_def Let_def moves_def [symmetric] case_prod_beta)
    then show ?thesis by simp
  next
    case False
    define mv0 where "mv0 = \<lparr>best_result = \<lparr>score = - INFINITE E, pv = None\<rparr>, move_idx = 0,
        completed_moves = 0, worker_moves = (\<lambda>w. Move 0), worker_busy = (\<lambda>w. False)\<rparr>"
    obtain mv1 cl1 where iw: "initial_work E pos depth moves [1..<nprocs] (mv0, cl) = (mv1, cl1)"
      by (cases "initial_work E pos depth moves [1..<nprocs] (mv0, cl)")
    obtain mv2 sg2 where cr: "collect_results E nprocs pos depth moves mv1 (fst st) cl1 = Some (mv2, sg2, cl')"
      using assms(3) ne False iw
      by (auto simp: search_mpi_def Let_def moves_def [symmetric] mv0_def [symmetric]
            split: option.splits)
    obtain new1 where new1: "c_sent cl1 = c_sent cl @ new1" "Wint (- 1) \<notin> snd ` set new1"
      using initial_work_sent [OF assms(2), of E pos moves "[1..<nprocs]" mv0 cl] iw by auto
    obtain new2 where new2: "c_sent cl' = c_sent cl1 @ new2" "Wint (- 1) \<notin> snd ` set new2"
      using collect_results_sent [OF assms(2) cr] by blast
    have "c_sent cl' = c_sent cl @ (new1 @ new2)"
      using new1(1) new2(1) by simp
    moreover have "Wint (- 1) \<notin> snd ` set (new1 @ new2)"
      using new1(2) new2(2) by auto
    ultimately show ?thesis by blast
  qed
qed

lemma id_loop_mpi_sent:
  "legal_move_list E pos \<noteq> [] \<Longrightarrow> 0 \<le> depth \<Longrightarrow>
   id_loop_mpi E nprocs pos depth max_depth best_move st cl = Some (bm, st', cl') \<Longrightarrow>
   \<exists>rounds. Wint (- 1) \<notin> snd ` set rounds \<and>
           (c_sent cl' = c_sent cl @ rounds @ map (\<lambda>worker. (worker, Wint (- 1))) [1..<nprocs] \<or>
            c_sent cl' = c_sent cl @ rounds \<and> stop_flag (fst st'))"
proof (induction E nprocs pos depth max_depth best_move st cl rule: id_loop_mpi.induct)
  case (1 E nprocs pos depth max_depth best_move st cl)
  show ?case
  proof (cases "depth \<le> max_depth")
    case False
    then have "cl' = fold (\<lambda>worker. deliver E worker [Wint (- 1)]) [1..<nprocs] cl"
      using 1(4) by (simp add: id_loop_mpi.simps [of E nprocs pos depth max_depth best_move st cl])
    then have "c_sent cl' = c_sent cl @ [] @ map (\<lambda>worker. (worker, Wint (- 1))) [1..<nprocs]"
      by (simp add: terminate_all_sent)
    moreover have "Wint (- 1) \<notin> snd ` set ([] :: (nat \<times> wire) list)" by simp
    ultimately show ?thesis by blast
  next
    case True
    obtain r st1 cl1 where sm: "search_mpi E 0 nprocs pos depth st cl = Some (r, st1, cl1)"
      using 1(4) True
      by (auto simp: id_loop_mpi.simps [of E nprocs pos depth max_depth best_move st cl]
            split: option.splits)
    have dne: "depth \<noteq> - 1" using 1(3) by simp
    obtain new where new: "c_sent cl1 = c_sent cl @ new" "Wint (- 1) \<notin> snd ` set new"
      using search_mpi_sent [OF 1(2) dne sm] by blast
    show ?thesis
    proof (cases "1 < depth \<and> stop_flag (fst st1)")
      case stop: True
      then have "cl' = cl1" "st' = st1"
        using 1(4) True sm
        by (auto simp: id_loop_mpi.simps [of E nprocs pos depth max_depth best_move st cl])
      then show ?thesis using new stop by blast
    next
      case nostop: False
      show ?thesis
      proof (cases "\<exists>m pvl. pv r = Some (m # pvl)")
        case False
        then have "cl' = fold (\<lambda>worker. deliver E worker [Wint (- 1)]) [1..<nprocs] cl1"
          using 1(4) True sm nostop
          by (auto simp: id_loop_mpi.simps [of E nprocs pos depth max_depth best_move st cl]
                split: option.splits list.splits)
        then have "c_sent cl' = c_sent cl @ new @ map (\<lambda>worker. (worker, Wint (- 1))) [1..<nprocs]"
          using new(1) by (simp add: terminate_all_sent)
        then show ?thesis using new(2) by blast
      next
        case True
        then obtain m pvl where pv: "pv r = Some (m # pvl)" by blast
        have rest: "id_loop_mpi E nprocs pos (depth + 1) max_depth (Some m) st1 cl1 = Some (bm, st', cl')"
          using 1(4) \<open>depth \<le> max_depth\<close> sm nostop pv
          by (simp add: id_loop_mpi.simps [of E nprocs pos depth max_depth best_move st cl])
        have d1: "0 \<le> depth + 1" using 1(3) by simp
        note ih = 1(1) [OF \<open>depth \<le> max_depth\<close> sm refl refl nostop pv refl 1(2) d1 rest]
        then obtain rounds where rounds: "Wint (- 1) \<notin> snd ` set rounds"
           "c_sent cl' = c_sent cl1 @ rounds @ map (\<lambda>worker. (worker, Wint (- 1))) [1..<nprocs] \<or>
            c_sent cl' = c_sent cl1 @ rounds \<and> stop_flag (fst st')"
          by blast
        have "Wint (- 1) \<notin> snd ` set (new @ rounds)"
          using new(2) rounds(1) by auto
        moreover have "c_sent cl' = c_sent cl @ (new @ rounds) @ map (\<lambda>worker. (worker, Wint (- 1))) [1..<nprocs] \<or>
            c_sent cl' = c_sent cl @ (new @ rounds) \<and> stop_flag (fst st')"
          using rounds(2) new(1) by auto
        ultimately show ?thesis by blast
      qed
    qed
  qed
qed

section \<open>Runs of the master with one worker on the small instance\<close>

lemma upt_1_2: "[Suc 0..<2] = [Suc 0]"
  by (simp add: upt_rec)

lemmas run_simps = search_mpi_def best_move_search_mpi_def id_loop_mpi.simps collect_results.simps
  recv_any_source_def worker_result_of_def send_work_def deliver_def worker_search_def
  cl0_def toy_simps upt_1_2

lemma toy_best_move_search_run:
  "\<exists>st' cl'. best_move_search_mpi toy 0 2 0 (sg0, tt_empty) 1 cl0 = Some (Some (Move 2), st', cl') \<and>
     c_sent cl' = [(1, Wint 1), (1, Wchars ''x''), (1, Wint 1),
                   (1, Wint 2), (1, Wchars ''xx''), (1, Wint 1), (1, Wint 0), (1, Wint (- 1))]"
  by (simp add: run_simps numeral_2_eq_2)

lemma toy_search_round_run:
  "\<exists>st1 cl1. search_mpi toy 0 2 0 1 (sg0, tt_empty) cl0 = Some (\<lparr>score = 50, pv = Some [Move 2]\<rparr>, st1, cl1) \<and>
     c_sent cl1 = [(1, Wint 1), (1, Wchars ''x''), (1, Wint 1),
                   (1, Wint 2), (1, Wchars ''xx''), (1, Wint 1), (1, Wint 0)]"
  by (simp add: run_simps numeral_2_eq_2)

section \<open>A message to a live worker\<close>

lemma mpi_worker_node:
  "search_impl_mpi toy 1 (- 32000) 32000 1 1 (sg0, tt_empty) =
   (\<lparr>score = 0, pv = Some [Move 3]\<rparr>,
    (\<lparr>stop_flag = False, nodes = 2\<rparr>,
     tt_empty (1 := \<lparr>e_hash = 1, e_depth = 1, e_score = 0, e_best_move = 3, e_flag = UPPER_BOUND\<rparr>)))"
  by (simp add: toy_simps)

lemma deliver_alive:
  assumes "\<not> c_exited cl w" and "mpi_worker_loop E msgs (c_workers cl w) = (out, wst, ex)"
  shows "deliver E w msgs cl =
     cl\<lparr>c_sent := c_sent cl @ map (Pair w) msgs, c_workers := (c_workers cl)(w := wst),
        c_exited := (c_exited cl)(w := ex), c_outbox := (c_outbox cl)(w := c_outbox cl w @ out)\<rparr>"
  using assms by (simp add: deliver_def Let_def)

section \<open>Scores stay within the mate score\<close>

text \<open>
  With a window \<open>[alpha, beta]\<close> at ply \<open>q\<close>, a search returns a score between
  \<open>min beta (- (MATE_SCORE - q))\<close> and \<open>max alpha (MATE_SCORE - q)\<close>: a value of the
  position or a bound of the window.
\<close>

lemma score_constants_eval:
  assumes "score_constants_ok E" and "ply \<le> MAX_PLY E"
  shows "- (MATE_SCORE E - int ply) \<le> evaluate E pos" and "evaluate E pos \<le> MATE_SCORE E - int ply"
    and "0 \<le> MATE_SCORE E - int ply" and "int ply \<le> MATE_SCORE E - int ply"
proof -
  have "\<bar>evaluate E pos\<bar> < MAX_MATE_SCORE E"
    using assms(1) by (simp add: score_constants_ok_def)
  moreover have "MAX_MATE_SCORE E + int (MAX_PLY E) \<le> MATE_SCORE E" "2 * int (MAX_PLY E) \<le> MATE_SCORE E"
    using assms(1) by (simp_all add: score_constants_ok_def)
  moreover have "int ply \<le> int (MAX_PLY E)"
    using assms(2) by simp
  ultimately show "- (MATE_SCORE E - int ply) \<le> evaluate E pos" "evaluate E pos \<le> MATE_SCORE E - int ply"
      "0 \<le> MATE_SCORE E - int ply" "int ply \<le> MATE_SCORE E - int ply"
    by linarith+
qed

lemma qsearch_bounds:
  "score_constants_ok E \<Longrightarrow> ply \<le> MAX_PLY E \<Longrightarrow>
     min beta (- (MATE_SCORE E - int ply)) \<le> fst (qsearch_impl E pos alpha beta ply sg) \<and>
     fst (qsearch_impl E pos alpha beta ply sg) \<le> max alpha (MATE_SCORE E - int ply)"
  "score_constants_ok E \<Longrightarrow> ply < MAX_PLY E \<Longrightarrow>
     min alpha (- (MATE_SCORE E - int ply)) \<le> fst (qsearch_moves E pos ms alpha beta best ply sg) \<and>
     fst (qsearch_moves E pos ms alpha beta best ply sg) \<le> max alpha (MATE_SCORE E - int ply)"
proof (induction E pos alpha beta ply sg and E pos ms alpha beta best ply sg
       rule: qsearch_impl_qsearch_moves.induct)
  case (1 E pos alpha beta ply sg)
  note e = score_constants_eval(1,2) [OF 1(3) 1(4), of pos] score_constants_eval(3) [OF 1(3) 1(4)]
  note ih1 = 1(1) [OF _ refl _ refl refl _ _ refl _ 1(3)]
  note ih2 = 1(2) [OF _ refl _ refl refl _ _ 1(3)]
  show ?case
  proof (cases "stop_flag sg \<or> ply \<ge> MAX_PLY E \<or> evaluate E pos \<ge> beta")
    case True
    then show ?thesis
      using e by (auto simp: qsearch_impl.simps [of E pos alpha beta ply sg] Let_def)
  next
    case False
    then have lt: "ply < MAX_PLY E" by simp
    show ?thesis
    proof (cases "in_check E pos")
      case True
      show ?thesis
      proof (cases "check_evasion_move_list E pos = []")
        case nomoves: True
        then show ?thesis
          using False True e by (auto simp: qsearch_impl.simps [of E pos alpha beta ply sg] Let_def)
      next
        case moves: False
        have "min (if alpha < evaluate E pos then evaluate E pos else alpha) (- (MATE_SCORE E - int ply))
              \<le> fst (qsearch_moves E pos (sort_moves E pos (check_evasion_move_list E pos) None)
                       (if alpha < evaluate E pos then evaluate E pos else alpha) beta (- INFINITE E) ply
                       (increment_nodes sg)) \<and>
              fst (qsearch_moves E pos (sort_moves E pos (check_evasion_move_list E pos) None)
                       (if alpha < evaluate E pos then evaluate E pos else alpha) beta (- INFINITE E) ply
                       (increment_nodes sg))
              \<le> max (if alpha < evaluate E pos then evaluate E pos else alpha) (MATE_SCORE E - int ply)"
          using ih1 False True moves lt by simp
        then show ?thesis
          using False True moves e
          by (auto simp: qsearch_impl.simps [of E pos alpha beta ply sg] Let_def)
      qed
    next
      case nocheck: False
      have "min (if alpha < evaluate E pos then evaluate E pos else alpha) (- (MATE_SCORE E - int ply))
              \<le> fst (qsearch_moves E pos
                       (sort_moves E pos (generate_capture_moves E pos @ generate_promotions E pos) None)
                       (if alpha < evaluate E pos then evaluate E pos else alpha) beta (- INFINITE E) ply
                       (increment_nodes sg)) \<and>
              fst (qsearch_moves E pos
                       (sort_moves E pos (generate_capture_moves E pos @ generate_promotions E pos) None)
                       (if alpha < evaluate E pos then evaluate E pos else alpha) beta (- INFINITE E) ply
                       (increment_nodes sg))
              \<le> max (if alpha < evaluate E pos then evaluate E pos else alpha) (MATE_SCORE E - int ply)"
        using ih2 False nocheck lt by simp
      then show ?thesis
        using False nocheck e
        by (auto simp: qsearch_impl.simps [of E pos alpha beta ply sg] Let_def)
    qed
  qed
next
  case (2 E pos alpha beta best ply sg)
  then show ?case by simp
next
  case (3 E pos m ms alpha beta best ply sg)
  show ?case
  proof (cases "is_legal_generated_move E pos m")
    case False
    with 3(1) [OF _ 3(6) 3(7)] show ?thesis by simp
  next
    case True
    obtain r sg1 where child:
      "qsearch_impl E (make_move E pos m) (- beta) (- alpha) (ply + 1) sg = (r, sg1)"
      by (cases "qsearch_impl E (make_move E pos m) (- beta) (- alpha) (ply + 1) sg")
    have nn: "\<not> \<not> is_legal_generated_move E pos m"
      using True by simp
    have p1: "ply + 1 \<le> MAX_PLY E" using 3(7) by simp
    have c: "min (- alpha) (- (MATE_SCORE E - int (ply + 1))) \<le> r"
            "r \<le> max (- beta) (MATE_SCORE E - int (ply + 1))"
      using 3(2) [OF nn 3(6) p1] child by simp_all
    note ih1 = 3(3) [OF nn refl child [symmetric] refl _ _ _ _ 3(6) 3(7)]
    note ih2 = 3(4) [OF nn refl child [symmetric] refl _ _ _ 3(6) 3(7)]
    note ih3 = 3(5) [OF nn refl child [symmetric] refl _ _ 3(6) 3(7)]
    have le: "0 \<le> MATE_SCORE E - int ply"
      using score_constants_eval(3) [OF 3(6), of ply] 3(7) by simp
    show ?thesis
    proof (cases "stop_flag sg1")
      case stop: True
      then show ?thesis
        using True child le by (simp add: Let_def; (intro conjI)?; linarith)
    next
      case nostop: False
      show ?thesis
      proof (cases "- r > best")
        case gt: True
        show ?thesis
        proof (cases "- r > alpha")
          case True
          show ?thesis
          proof (cases "- r \<ge> beta")
            case True
            then show ?thesis
              using \<open>is_legal_generated_move E pos m\<close> child nostop gt \<open>- r > alpha\<close> c
              by (simp add: Let_def; (intro conjI)?; linarith)
          next
            case False
            have "min (- r) (- (MATE_SCORE E - int ply)) \<le> fst (qsearch_moves E pos ms (- r) beta (- r) ply sg1) \<and>
                  fst (qsearch_moves E pos ms (- r) beta (- r) ply sg1) \<le> max (- r) (MATE_SCORE E - int ply)"
              using ih1 nostop gt \<open>- r > alpha\<close> False by simp
            then show ?thesis
              using \<open>is_legal_generated_move E pos m\<close> child nostop gt \<open>- r > alpha\<close> False c
              by (simp add: Let_def; (intro conjI)?; linarith)
          qed
        next
          case False
          have "min alpha (- (MATE_SCORE E - int ply)) \<le> fst (qsearch_moves E pos ms alpha beta (- r) ply sg1) \<and>
                  fst (qsearch_moves E pos ms alpha beta (- r) ply sg1) \<le> max alpha (MATE_SCORE E - int ply)"
            using ih2 nostop gt False by simp
          then show ?thesis
            using \<open>is_legal_generated_move E pos m\<close> child nostop gt False
            by (simp add: Let_def; (intro conjI)?; linarith)
        qed
      next
        case False
        have "min alpha (- (MATE_SCORE E - int ply)) \<le> fst (qsearch_moves E pos ms alpha beta best ply sg1) \<and>
                  fst (qsearch_moves E pos ms alpha beta best ply sg1) \<le> max alpha (MATE_SCORE E - int ply)"
          using ih3 nostop False by simp
        then show ?thesis
          using \<open>is_legal_generated_move E pos m\<close> child nostop False
          by (simp add: Let_def; (intro conjI)?; linarith)
      qed
    qed
  qed
qed

lemma entry_guards_Inr:
  assumes "entry_guards E epv pos alpha beta ply sg = Inr (a1, b1)" and "1 \<le> ply"
  shows "ply < MAX_PLY E" and "a1 = max (- MATE_SCORE E + int ply) alpha"
    and "b1 = min (MATE_SCORE E - int ply) beta" and "a1 < b1"
  using assms by (auto simp: entry_guards_def Let_def split: if_splits)

lemma entry_guards_Inl:
  assumes "entry_guards E epv pos alpha beta ply sg = Inl r"
    and "score_constants_ok E" and "ply \<le> MAX_PLY E"
  shows "min beta (- (MATE_SCORE E - int ply)) \<le> score r \<and> score r \<le> max alpha (MATE_SCORE E - int ply)"
proof -
  note e = score_constants_eval(1,2) [OF assms(2,3), of pos] score_constants_eval(3,4) [OF assms(2,3)]
  have "score r = 0 \<or> score r = evaluate E pos \<or>
        (score r = max (- MATE_SCORE E + int ply) alpha \<and>
         min (MATE_SCORE E - int ply) beta \<le> max (- MATE_SCORE E + int ply) alpha)"
    using assms(1) by (auto simp: entry_guards_def Let_def split: if_splits)
  then show ?thesis
    using e by linarith
qed

lemma tt_probe_score_bounds:
  assumes "score_constants_ok E" and "ply \<le> MAX_PLY E" and "tt_ok E tt"
  shows "- (MATE_SCORE E - int ply) \<le> (case mpi_probe tt h of None \<Rightarrow> 0
            | Some e \<Rightarrow> if MAX_MATE_SCORE E \<le> e_score e then e_score e - int ply
                else if e_score e \<le> - MAX_MATE_SCORE E then e_score e + int ply else e_score e) \<and>
         (case mpi_probe tt h of None \<Rightarrow> 0
            | Some e \<Rightarrow> if MAX_MATE_SCORE E \<le> e_score e then e_score e - int ply
                else if e_score e \<le> - MAX_MATE_SCORE E then e_score e + int ply else e_score e)
           \<le> MATE_SCORE E - int ply"
proof (cases "mpi_probe tt h")
  case None
  then show ?thesis
    using score_constants_eval(3) [OF assms(1,2)] by simp
next
  case (Some e)
  then have "e = tt (unat h mod TABLE_SIZE)"
    by (auto simp: mpi_probe_def Let_def split: if_splits)
  then have b: "\<bar>e_score e\<bar> \<le> MATE_SCORE E"
    using assms(3) by (simp add: tt_ok_def)
  have c: "MAX_MATE_SCORE E + int (MAX_PLY E) \<le> MATE_SCORE E" "2 * int (MAX_PLY E) \<le> MATE_SCORE E"
      "\<bar>evaluate E undefined\<bar> < MAX_MATE_SCORE E"
    using assms(1) by (simp_all add: score_constants_ok_def)
  have q: "int ply \<le> int (MAX_PLY E)"
    using assms(2) by simp
  show ?thesis
    using Some b c q by (simp; (intro conjI impI)?; linarith)
qed

lemma tt_store_ok:
  assumes "tt_ok E tt" and "\<bar>sc\<bar> \<le> MATE_SCORE E"
  shows "tt_ok E (tt_store tt h d sc m fl)"
  using assms by (simp add: tt_store_def tt_ok_def Let_def)

lemma loop_result_ok_weaken:
  assumes "loop_result_ok E ply first' best' res" and "best \<le> best'"
    and "first \<Longrightarrow> first' \<or> - (MATE_SCORE E - int ply - 1) \<le> best'"
  shows "loop_result_ok E ply first best res"
  using assms by (auto simp: loop_result_ok_def split: sum.splits)

lemma search_mpi_bounds:
  "score_constants_ok E \<Longrightarrow> 1 \<le> ply \<Longrightarrow> ply \<le> MAX_PLY E \<Longrightarrow> tt_ok E (snd st) \<Longrightarrow>
     min beta (- (MATE_SCORE E - int ply)) \<le> score (fst (search_impl_mpi E pos alpha beta depth ply st)) \<and>
     score (fst (search_impl_mpi E pos alpha beta depth ply st)) \<le> max alpha (MATE_SCORE E - int ply) \<and>
     tt_ok E (snd (snd (search_impl_mpi E pos alpha beta depth ply st)))"
  "score_constants_ok E \<Longrightarrow> 1 \<le> ply \<Longrightarrow> ply < MAX_PLY E \<Longrightarrow> tt_ok E (snd st) \<Longrightarrow>
     - (MATE_SCORE E - int ply) \<le> alpha \<Longrightarrow> alpha < beta \<Longrightarrow> beta \<le> MATE_SCORE E - int ply \<Longrightarrow>
     best \<le> alpha \<Longrightarrow>
     loop_result_ok E ply (move_num = 0 \<and> ms \<noteq> []) best
       (search_moves_mpi E pos ms move_num pv_node pos_hash alpha beta best bm pvl depth ply st)"
proof (induction E pos alpha beta depth ply st
         and E pos ms move_num pv_node pos_hash alpha beta best bm pvl depth ply st
       rule: search_impl_mpi_search_moves_mpi.induct)
  case (1 E pos alpha beta depth ply st)
  note ok = "1.prems"(1) and p1 = "1.prems"(2) and ple = "1.prems"(3) and ttok = "1.prems"(4)
  note e = score_constants_eval(1,2) [OF ok ple, of pos] score_constants_eval(3,4) [OF ok ple]
  have inf: "MATE_SCORE E < INFINITE E" and mm: "0 \<le> MAX_MATE_SCORE E"
    using ok by (auto simp: score_constants_ok_def)
  show ?case
  proof (cases "depth \<le> 0")
    case True
    then show ?thesis
      using qsearch_bounds(1) [OF ok ple, of beta pos alpha "fst st"] ttok
      by (simp add: search_impl_mpi.simps [of E pos alpha beta depth ply st] case_prod_beta)
  next
    case False
    show ?thesis
    proof (cases "entry_guards E None pos alpha beta ply (fst st)")
      case (Inl r)
      then show ?thesis
        using False entry_guards_Inl [OF Inl ok ple] ttok
        by (simp add: search_impl_mpi.simps [of E pos alpha beta depth ply st])
    next
      case (Inr b)
      obtain a1 b1 where b: "b = (a1, b1)" by (cases b)
      have g: "ply < MAX_PLY E" "a1 = max (- MATE_SCORE E + int ply) alpha"
          "b1 = min (MATE_SCORE E - int ply) beta" "a1 < b1"
        using entry_guards_Inr [OF Inr [unfolded b] p1] by simp_all
      have lo: "- (MATE_SCORE E - int ply) \<le> a1" and hi: "b1 \<le> MATE_SCORE E - int ply"
        using g by simp_all
      define st1 where "st1 = (increment_nodes (fst st), snd st)"
      define nc where "nc = (if null_move_allowed E pos (a1 \<noteq> b1 - 1) b1 depth ply
            then let (nr, ya) = search_impl_mpi E (make_null_move E pos) (- b1) (- b1 + 1)
                                  (depth - 3 - 1) (ply + 1) st1
                 in (b1 \<le> score (neg_result nr), ya)
            else (False, st1))"
      obtain cut st2 where nceq: "nc = (cut, st2)" by (cases nc)
      note ih1 = "1.IH"(1) [OF False Inr b [symmetric] refl refl refl refl _ refl st1_def refl]
      note ih2 = "1.IH"(2) [OF False Inr b [symmetric] refl refl refl refl _ refl st1_def refl _ nc_def
                        nceq [symmetric]]
      have t1: "tt_ok E (snd st1)"
        using ttok by (simp add: st1_def)
      define ts where "ts = (case mpi_probe (snd st) (hash E pos) of None \<Rightarrow> 0
                      | Some e \<Rightarrow> if MAX_MATE_SCORE E \<le> e_score e then e_score e - int ply
                          else if e_score e \<le> - MAX_MATE_SCORE E then e_score e + int ply else e_score e)"
      have tsb: "- (MATE_SCORE E - int ply) \<le> ts" "ts \<le> MATE_SCORE E - int ply"
        using tt_probe_score_bounds [OF ok ple ttok, of "hash E pos"] by (simp_all add: ts_def)
      show ?thesis
      proof (cases "case mpi_probe (snd st) (hash E pos) of None \<Rightarrow> False
              | Some e \<Rightarrow> depth \<le> e_depth e \<and>
                  (e_flag e = EXACT \<or>
                   e_flag e = LOWER_BOUND \<and> b1 \<le> (case mpi_probe (snd st) (hash E pos) of None \<Rightarrow> 0
                      | Some e \<Rightarrow> if MAX_MATE_SCORE E \<le> e_score e then e_score e - int ply
                          else if e_score e \<le> - MAX_MATE_SCORE E then e_score e + int ply else e_score e) \<or>
                   e_flag e = UPPER_BOUND \<and> (case mpi_probe (snd st) (hash E pos) of None \<Rightarrow> 0
                      | Some e \<Rightarrow> if MAX_MATE_SCORE E \<le> e_score e then e_score e - int ply
                          else if e_score e \<le> - MAX_MATE_SCORE E then e_score e + int ply else e_score e) \<le> a1)")
        case True
        then have "score (fst (search_impl_mpi E pos alpha beta depth ply st)) = ts \<and>
                   snd (search_impl_mpi E pos alpha beta depth ply st) = st"
          using False Inr b
          by (simp add: search_impl_mpi.simps [of E pos alpha beta depth ply st] Let_def ts_def)
        then show ?thesis
          using tsb ttok by (simp; (intro conjI)?; linarith)
      next
        case nocut: False
        show ?thesis
        proof (cases "legal_move_list E pos = []")
          case True
          then have "search_impl_mpi E pos alpha beta depth ply st =
              (\<lparr>score = (if in_check E pos then - MATE_SCORE E + int ply else 0), pv = None\<rparr>, st1)"
            using False Inr b nocut
            by (simp add: search_impl_mpi.simps [of E pos alpha beta depth ply st] Let_def st1_def)
          then show ?thesis
            using e t1 by (simp; (intro conjI impI)?; linarith)
        next
          case moves: False
          have t2: "tt_ok E (snd st2)"
          proof (cases "null_move_allowed E pos (a1 \<noteq> b1 - 1) b1 depth ply")
            case True
            have "tt_ok E (snd (snd (search_impl_mpi E (make_null_move E pos) (- b1) (- b1 + 1)
                                  (depth - 3 - 1) (ply + 1) st1)))"
              using ih1 [OF nocut moves True ok _ _ t1] g(1) by simp
            then show ?thesis using True nceq by (simp add: nc_def case_prod_beta)
          next
            case False
            then show ?thesis using nceq t1 by (simp add: nc_def)
          qed
          define lp where "lp = search_moves_mpi E pos (sort_moves E pos (legal_move_list E pos)
                      (Some (case mpi_probe (snd st) (hash E pos) of None \<Rightarrow> Move 0
                             | Some e \<Rightarrow> if e_best_move e \<noteq> 0 then Move (e_best_move e) else Move 0)))
                      0 (a1 \<noteq> b1 - 1) (hash E pos) a1 b1 (- INFINITE E) (Move 0) [] depth ply st2"
          obtain res st3 where lpeq: "lp = (res, st3)" by (cases lp)
          have unfold: "search_impl_mpi E pos alpha beta depth ply st =
            (if cut then (\<lparr>score = b1, pv = None\<rparr>, st2)
             else (case lp of
                     (Inl r, st3) \<Rightarrow> (r, st3)
                   | (Inr (best_score, best_move, alpha2, pvl), st3) \<Rightarrow>
                       (let flag = (if best_score \<le> alpha2 then UPPER_BOUND else EXACT);
                            store_score = (if best_score \<ge> MAX_MATE_SCORE E then best_score + int ply
                                           else if best_score \<le> - MAX_MATE_SCORE E then best_score - int ply
                                           else best_score)
                        in (\<lparr>score = best_score, pv = Some pvl\<rparr>,
                            (fst st3,
                             if move_value best_move \<noteq> 0
                             then tt_store (snd st3) (hash E pos) depth store_score best_move flag
                             else snd st3)))))"
            using False Inr b nocut moves nceq
            by (simp add: search_impl_mpi.simps [of E pos alpha beta depth ply st] Let_def
                  st1_def [symmetric] nc_def [symmetric] lp_def)
          show ?thesis
          proof (cases cut)
            case True
            then show ?thesis
              unfolding unfold using t2 g lo hi by (simp; (intro conjI)?; linarith)
          next
            case False
            have ne: "sort_moves E pos (legal_move_list E pos)
                      (Some (case mpi_probe (snd st) (hash E pos) of None \<Rightarrow> Move 0
                             | Some e \<Rightarrow> if e_best_move e \<noteq> 0 then Move (e_best_move e) else Move 0)) \<noteq> []"
              using moves set_sort_moves [of E pos "legal_move_list E pos"] by (metis set_empty)
            have binf: "- INFINITE E \<le> a1"
              using lo inf e(3) by linarith
            have post: "loop_result_ok E ply True (- INFINITE E) lp"
              using ih2 [OF nocut moves False ok p1 g(1) t2 lo g(4) hi binf] ne
              by (simp add: lp_def)
            show ?thesis
            proof (cases res)
              case (Inl r)
              then show ?thesis
                unfolding unfold using False post lpeq e
                by (simp add: loop_result_ok_def; (intro conjI)?; linarith)
            next
              case (Inr t)
              obtain bs bmv a2 pvl where t: "t = (bs, bmv, a2, pvl)" by (cases t)
              have bsb: "- (MATE_SCORE E - int ply - 1) \<le> bs" "bs \<le> MATE_SCORE E - int ply - 1"
                  and t3: "tt_ok E (snd st3)"
                using post lpeq Inr t by (simp_all add: loop_result_ok_def)
              have sc: "\<bar>if MAX_MATE_SCORE E \<le> bs then bs + int ply
                         else if bs \<le> - MAX_MATE_SCORE E then bs - int ply else bs\<bar> \<le> MATE_SCORE E"
                using bsb mm e(3) by (simp; (intro conjI impI)?; linarith)
              have t4: "tt_ok E (tt_store (snd st3) (hash E pos) depth
                          (if MAX_MATE_SCORE E \<le> bs then bs + int ply
                           else if bs \<le> - MAX_MATE_SCORE E then bs - int ply else bs) bmv fl)" for fl
                using tt_store_ok [OF t3 sc] .
              show ?thesis
                unfolding unfold using False lpeq Inr t bsb t3 t4
                by (simp add: Let_def; (intro conjI impI)?; linarith)
            qed
          qed
        qed
      qed
    qed
  qed
next
  case (2 E pos move_num pv_node pos_hash alpha beta best_score best_move pvl depth ply st)
  then show ?case by (simp add: loop_result_ok_def)
next
  case (3 E pos m ms move_num pv_node pos_hash alpha beta best_score best_move pvl depth ply st)
  note ok = "3.prems"(1) and p1 = "3.prems"(2) and plt = "3.prems"(3) and ttok = "3.prems"(4)
    and lo = "3.prems"(5) and ab = "3.prems"(6) and hi = "3.prems"(7) and ba = "3.prems"(8)
  have q1: "1 \<le> ply + 1" "ply + 1 \<le> MAX_PLY E" "int (ply + 1) = int ply + 1"
    using plt by simp_all
  define to_pt where "to_pt = piece_type_on E pos (to_square E m)"
  define child where "child = make_move E pos m"
  define new_depth where "new_depth = (if 3 < move_num + 1 \<and> 2 < depth \<and> \<not> in_check E child \<and>
       to_pt = None \<and> type_of_move E m \<noteq> PROMOTION then max 1 (depth - 2) else depth - 1)"
  define c0 where "c0 = (if move_num + 1 = 1
            then search_impl_mpi E child (- beta) (- alpha) new_depth (ply + 1) st
            else search_impl_mpi E child (- alpha - 1) (- alpha) new_depth (ply + 1) st)"
  obtain r0 st0 where c0eq: "c0 = (r0, st0)" by (cases c0)
  define c1 where "c1 = (if 1 < move_num + 1 \<and> alpha < score (neg_result r0) \<and> new_depth < depth - 1
            then search_impl_mpi E child (- alpha - 1) (- alpha) (depth - 1) (ply + 1) st0
            else (r0, st0))"
  obtain r1 st1 where c1eq: "c1 = (r1, st1)" by (cases c1)
  define c2 where "c2 = (if 1 < move_num + 1 \<and> alpha < score (neg_result r0) \<and> alpha < score (neg_result r1)
            then search_impl_mpi E child (- beta) (- alpha) (depth - 1) (ply + 1) st1
            else (r1, st1))"
  obtain r2 st2 where c2eq: "c2 = (r2, st2)" by (cases c2)
  note p0 = to_pt_def child_def new_depth_def
  have k0: "- score r0 \<le> MATE_SCORE E - int ply - 1 \<and> tt_ok E (snd st0) \<and>
            (move_num = 0 \<longrightarrow> - (MATE_SCORE E - int ply - 1) \<le> - score r0)"
  proof (cases "move_num + 1 = 1")
    case True
    from "3.IH"(1) [OF p0 True ok q1(1,2) ttok]
    show ?thesis
      using True c0eq lo ab hi q1(3) by (simp add: c0_def; (intro conjI)?; linarith)
  next
    case False
    from "3.IH"(2) [OF p0 False ok q1(1,2) ttok]
    show ?thesis
      using False c0eq lo ab hi q1(3) by (simp add: c0_def; (intro conjI)?; linarith)
  qed
  have k1: "- score r1 \<le> MATE_SCORE E - int ply - 1 \<and> tt_ok E (snd st1) \<and>
            (move_num = 0 \<longrightarrow> r1 = r0)"
  proof (cases "1 < move_num + 1 \<and> alpha < score (neg_result r0) \<and> new_depth < depth - 1")
    case True
    from "3.IH"(3) [OF p0 c0_def c0eq [symmetric] True ok q1(1,2)] k0
    show ?thesis
      using True c1eq lo ab hi q1(3) by (simp add: c1_def; (intro conjI)?; linarith)
  next
    case False
    then show ?thesis
      using c1eq k0 by (auto simp: c1_def)
  qed
  have k2: "- score r2 \<le> MATE_SCORE E - int ply - 1 \<and> tt_ok E (snd st2) \<and>
            (move_num = 0 \<longrightarrow> r2 = r0)"
  proof (cases "1 < move_num + 1 \<and> alpha < score (neg_result r0) \<and> alpha < score (neg_result r1)")
    case True
    from "3.IH"(4) [OF p0 c0_def c0eq [symmetric] c1_def c1eq [symmetric] True ok q1(1,2)] k1
    show ?thesis
      using True c2eq lo ab hi q1(3) by (simp add: c2_def; (intro conjI)?; linarith)
  next
    case False
    then show ?thesis
      using c2eq k1 by (auto simp: c2_def)
  qed
  define sr where "sr = score (neg_result r2)"
  have sr: "sr \<le> MATE_SCORE E - int ply - 1" "move_num = 0 \<Longrightarrow> - (MATE_SCORE E - int ply - 1) \<le> sr"
    and t2: "tt_ok E (snd st2)"
    using k0 k2 by (auto simp: sr_def neg_result_def)
  note pre = p0 c0_def c0eq [symmetric] c1_def c1eq [symmetric] c2_def c2eq [symmetric] refl
  note ih5 = "3.IH"(5) [OF pre _ _ _ refl _ ok p1 plt t2, folded sr_def]
  note ih6 = "3.IH"(6) [OF pre _ _ _ ok p1 plt t2, folded sr_def]
  note ih7 = "3.IH"(7) [OF pre _ _ ok p1 plt t2, folded sr_def]
  have unfold: "search_moves_mpi E pos (m # ms) move_num pv_node pos_hash alpha beta best_score best_move
       pvl depth ply st =
     (if ply \<noteq> 0 \<and> stop_flag (fst st2) then (Inl \<lparr>score = 0, pv = None\<rparr>, st2)
         else if sr > best_score then
           (if sr > alpha then
              (let pvl1 = (if pv_node then pv_add m (pv (neg_result r2)) else pvl) in
               if sr \<ge> beta
               then (Inr (sr, m, sr, pvl1),
                     (fst st2, tt_store (snd st2) pos_hash depth sr m LOWER_BOUND))
               else search_moves_mpi E pos ms (move_num + 1) pv_node pos_hash sr beta
                      sr m pvl1 depth ply st2)
            else search_moves_mpi E pos ms (move_num + 1) pv_node pos_hash alpha beta
                   sr m pvl depth ply st2)
         else search_moves_mpi E pos ms (move_num + 1) pv_node pos_hash alpha beta best_score best_move
                pvl depth ply st2)"
    by (simp only: search_moves_mpi.simps Let_def to_pt_def [symmetric] child_def [symmetric]
          new_depth_def [symmetric] c0_def [symmetric] c0eq c1_def [symmetric] c1eq
          c2_def [symmetric] c2eq prod.case sr_def)
  have nstop: "ply \<noteq> 0" using p1 by simp
  show ?case
  proof (cases "stop_flag (fst st2)")
    case True
    then show ?thesis
      unfolding unfold using nstop t2 by (simp add: loop_result_ok_def)
  next
    case nostop: False
    have ns: "\<not> (ply \<noteq> 0 \<and> stop_flag (fst st2))" using nostop by simp
    show ?thesis
    proof (cases "sr > best_score")
      case gt: True
      show ?thesis
      proof (cases "sr > alpha")
        case ga: True
        show ?thesis
        proof (cases "sr \<ge> beta")
          case True
          have "\<bar>sr\<bar> \<le> MATE_SCORE E"
            using True sr(1) lo ab by linarith
          then have "tt_ok E (tt_store (snd st2) pos_hash depth sr m LOWER_BOUND)"
            using tt_store_ok [OF t2] by simp
          then show ?thesis
            unfolding unfold using nostop gt ga True sr
            by (simp add: loop_result_ok_def Let_def)
        next
          case False
          have lo': "- (MATE_SCORE E - int ply) \<le> sr" using lo ga by linarith
          have lt': "sr < beta" using False by simp
          have "loop_result_ok E ply (move_num + 1 = 0 \<and> ms \<noteq> []) sr
                  (search_moves_mpi E pos ms (move_num + 1) pv_node pos_hash sr beta sr m
                     (if pv_node then pv_add m (pv (neg_result r2)) else pvl) depth ply st2)"
            using ih5 [OF ns gt ga False lo' lt' hi order_refl] by simp
          then have "loop_result_ok E ply (move_num = 0 \<and> m # ms \<noteq> []) best_score
                  (search_moves_mpi E pos ms (move_num + 1) pv_node pos_hash sr beta sr m
                     (if pv_node then pv_add m (pv (neg_result r2)) else pvl) depth ply st2)"
            by (rule loop_result_ok_weaken) (use gt sr(2) in auto)
          then show ?thesis
            unfolding unfold using nostop gt ga False by (simp add: Let_def)
        qed
      next
        case False
        have le': "sr \<le> alpha" using False by simp
        have "loop_result_ok E ply (move_num + 1 = 0 \<and> ms \<noteq> []) sr
                  (search_moves_mpi E pos ms (move_num + 1) pv_node pos_hash alpha beta sr m pvl depth ply st2)"
          using ih6 [OF ns gt False lo ab hi le'] by simp
        then have "loop_result_ok E ply (move_num = 0 \<and> m # ms \<noteq> []) best_score
                  (search_moves_mpi E pos ms (move_num + 1) pv_node pos_hash alpha beta sr m pvl depth ply st2)"
          by (rule loop_result_ok_weaken) (use gt sr(2) in auto)
        then show ?thesis
          unfolding unfold using nostop gt False by simp
      qed
    next
      case False
      have "loop_result_ok E ply (move_num + 1 = 0 \<and> ms \<noteq> []) best_score
                (search_moves_mpi E pos ms (move_num + 1) pv_node pos_hash alpha beta best_score best_move
                   pvl depth ply st2)"
        using ih7 [OF ns False lo ab hi ba] by simp
      then have "loop_result_ok E ply (move_num = 0 \<and> m # ms \<noteq> []) best_score
                (search_moves_mpi E pos ms (move_num + 1) pv_node pos_hash alpha beta best_score best_move
                   pvl depth ply st2)"
        by (rule loop_result_ok_weaken) (use False sr(2) in auto)
      then show ?thesis
        unfolding unfold using nostop False by simp
    qed
  qed
qed

section \<open>A round of the master always completes\<close>

lemma good_reply_parse:
  assumes "good_reply E box"
  shows "box \<noteq> []" and "\<exists>s n len vals. parse_reply box = Some (s, n, len, vals, []) \<and> s < INFINITE E"
proof -
  obtain s n vals where box: "box = [Wint s, Wu64 n, Wint (int (length vals))] @
                        (if vals = [] then [] else [Wu16s vals])" and s: "s < INFINITE E"
    using assms by (auto simp: good_reply_def)
  show "box \<noteq> []" using box by simp
  have "parse_reply box = Some (s, n, int (length vals), vals, [])"
    by (simp add: box parse_reply_def)
  then show "\<exists>s n len vals. parse_reply box = Some (s, n, len, vals, []) \<and> s < INFINITE E"
    using s by blast
qed

lemma worker_search_reply:
  assumes ok: "score_constants_ok E" and tt: "tt_ok E (snd wst)"
  shows "good_reply E (fst (worker_search E fen_size fen_buffer search_depth wst))"
    and "tt_ok E (snd (snd (worker_search E fen_size fen_buffer search_depth wst)))"
proof -
  define p where "p = position_of_fen E (takeWhile (\<lambda>c. c \<noteq> CHR 0x00) (take (nat fen_size) fen_buffer))"
  obtain result wst1 where search:
    "search_impl_mpi E p (- INFINITE E) (INFINITE E) (search_depth - 1) 1 wst = (result, wst1)"
    by (cases "search_impl_mpi E p (- INFINITE E) (INFINITE E) (search_depth - 1) 1 wst")
  have c: "MATE_SCORE E < INFINITE E" "1 \<le> MAX_PLY E" "2 * int (MAX_PLY E) \<le> MATE_SCORE E"
    using ok by (simp_all add: score_constants_ok_def)
  have b: "score result \<le> max (- INFINITE E) (MATE_SCORE E - int 1)" "tt_ok E (snd wst1)"
    using search_mpi_bounds(1) [OF ok _ c(2) tt, of "INFINITE E" p "- INFINITE E" "search_depth - 1"] search
    by simp_all
  have lt: "score result < INFINITE E"
    using b(1) c by linarith
  define vals where "vals = (case pv result of Some l \<Rightarrow> map (\<lambda>m. uint16 (move_value m)) l | None \<Rightarrow> [])"
  have ws: "worker_search E fen_size fen_buffer search_depth wst =
      ([Wint (score result), Wu64 (nodes (fst wst1) - nodes (fst wst)), Wint (int (length vals))] @
       (if vals = [] then [] else [Wu16s vals]), wst1)"
    using search
    by (auto simp: worker_search_def Let_def p_def [symmetric] vals_def split: option.splits)
  show "good_reply E (fst (worker_search E fen_size fen_buffer search_depth wst))"
    unfolding ws good_reply_def using lt by auto
  show "tt_ok E (snd (snd (worker_search E fen_size fen_buffer search_depth wst)))"
    unfolding ws using b(2) by simp
qed

lemma send_work_effect:
  assumes ok: "score_constants_ok E" and alive: "\<not> c_exited cl w" and idle: "c_outbox cl w = []"
    and tt: "tt_ok E (snd (c_workers cl w))" and fen: "fen E (make_move E pos m) \<noteq> []"
  shows "good_reply E (c_outbox (send_work E pos depth m w cl) w)"
    and "tt_ok E (snd (c_workers (send_work E pos depth m w cl) w))"
    and "\<not> c_exited (send_work E pos depth m w cl) w"
    and "w' \<noteq> w \<Longrightarrow> c_outbox (send_work E pos depth m w cl) w' = c_outbox cl w' \<and>
           c_workers (send_work E pos depth m w cl) w' = c_workers cl w' \<and>
           c_exited (send_work E pos depth m w cl) w' = c_exited cl w'"
proof -
  define f where "f = fen E (make_move E pos m)"
  have len: "int (length f) \<noteq> - 1" "int (length f) \<noteq> 0"
    using fen by (simp_all add: f_def)
  obtain out wst1 where ws: "worker_search E (int (length f)) f depth (c_workers cl w) = (out, wst1)"
    by (cases "worker_search E (int (length f)) f depth (c_workers cl w)")
  have g: "good_reply E out" "tt_ok E (snd wst1)"
    using worker_search_reply [OF ok tt, of "int (length f)" f depth] ws by simp_all
  have loop: "mpi_worker_loop E [Wint (int (length f)), Wchars f, Wint depth] (c_workers cl w) =
      (out, wst1, False)"
    using len by (simp add: ws)
  note d = deliver_alive [OF alive loop]
  show "good_reply E (c_outbox (send_work E pos depth m w cl) w)"
    using g(1) idle by (simp add: send_work_def Let_def f_def [symmetric] d)
  show "tt_ok E (snd (c_workers (send_work E pos depth m w cl) w))"
    using g(2) by (simp add: send_work_def Let_def f_def [symmetric] d)
  show "\<not> c_exited (send_work E pos depth m w cl) w"
    by (simp add: send_work_def Let_def f_def [symmetric] d)
  show "w' \<noteq> w \<Longrightarrow> c_outbox (send_work E pos depth m w cl) w' = c_outbox cl w' \<and>
           c_workers (send_work E pos depth m w cl) w' = c_workers cl w' \<and>
           c_exited (send_work E pos depth m w cl) w' = c_exited cl w'"
    by (simp add: send_work_def Let_def f_def [symmetric] d)
qed

lemma no_work_effect:
  assumes "\<not> c_exited cl w"
  shows "c_outbox (deliver E w [Wint 0] cl) = c_outbox cl"
    and "c_workers (deliver E w [Wint 0] cl) = c_workers cl"
    and "c_exited (deliver E w [Wint 0] cl) = c_exited cl"
proof -
  have loop: "mpi_worker_loop E [Wint 0] (c_workers cl w) = ([], c_workers cl w, False)"
    by simp
  note d = deliver_alive [OF assms loop]
  show "c_outbox (deliver E w [Wint 0] cl) = c_outbox cl"
    and "c_workers (deliver E w [Wint 0] cl) = c_workers cl"
    and "c_exited (deliver E w [Wint 0] cl) = c_exited cl"
    using assms by (auto simp: d fun_upd_idem)
qed

lemma collect_inv_cong:
  assumes "c_outbox cl' = c_outbox cl" and "c_workers cl' = c_workers cl" and "c_exited cl' = c_exited cl"
  shows "collect_inv E nprocs moves todo mv cl' = collect_inv E nprocs moves todo mv cl"
  using assms by (simp add: collect_inv_def)

lemma busy_finite: "finite {w. 1 \<le> w \<and> w < nprocs \<and> c_outbox cl w \<noteq> []}"
  by (rule finite_subset [of _ "{..<nprocs}"]) auto

lemma dispatch_inv:
  assumes ok: "score_constants_ok E"
    and fen: "fen E (make_move E pos (moves ! move_idx mv)) \<noteq> []"
    and inv: "collect_inv E nprocs moves todo mv cl"
    and w: "1 \<le> w" "w < nprocs" and idle: "c_outbox cl w = []"
    and more: "move_idx mv < length moves"
  shows "collect_inv E nprocs moves (todo - {w})
           (mv\<lparr>worker_busy := (worker_busy mv)(w := True),
               worker_moves := (worker_moves mv)(w := moves ! move_idx mv),
               move_idx := move_idx mv + 1\<rparr>)
           (send_work E pos depth (moves ! move_idx mv) w cl)"
proof -
  define cl' where "cl' = send_work E pos depth (moves ! move_idx mv) w cl"
  have old: "\<not> c_exited cl w" "tt_ok E (snd (c_workers cl w))"
    using inv w by (simp_all add: collect_inv_def)
  note eff = send_work_effect [OF ok old(1) idle old(2) fen, where depth = depth, folded cl'_def]
  have ne: "c_outbox cl' w \<noteq> []"
    using good_reply_parse(1) [OF eff(1)] .
  have others: "c_outbox cl' w' = c_outbox cl w'" "c_workers cl' w' = c_workers cl w'"
      "c_exited cl' w' = c_exited cl w'" if "w' \<noteq> w" for w'
    using eff(4) [OF that] by simp_all
  have oth: "\<forall>w'. w' \<noteq> w \<longrightarrow> c_outbox cl' w' = c_outbox cl w'"
    using others(1) by simp
  have busy: "{w'. 1 \<le> w' \<and> w' < nprocs \<and> c_outbox cl' w' \<noteq> []} =
              insert w {w'. 1 \<le> w' \<and> w' < nprocs \<and> c_outbox cl w' \<noteq> []}"
    using w ne oth by auto
  have "w \<notin> {w'. 1 \<le> w' \<and> w' < nprocs \<and> c_outbox cl w' \<noteq> []}"
    using idle by simp
  then have card: "card {w'. 1 \<le> w' \<and> w' < nprocs \<and> c_outbox cl' w' \<noteq> []} =
                   card {w'. 1 \<le> w' \<and> w' < nprocs \<and> c_outbox cl w' \<noteq> []} + 1"
    unfolding busy using busy_finite [of nprocs cl] by simp
  have mem: "moves ! move_idx mv \<in> set moves"
    using more by simp
  have per: "\<not> c_exited cl' w' \<and> tt_ok E (snd (c_workers cl' w')) \<and>
        (c_outbox cl' w' = [] \<or> good_reply E (c_outbox cl' w')) \<and>
        (c_outbox cl' w' \<noteq> [] \<longrightarrow> ((worker_moves mv)(w := moves ! move_idx mv)) w' \<in> set moves)"
    if "1 \<le> w'" "w' < nprocs" for w'
  proof (cases "w' = w")
    case True
    then show ?thesis using eff(1-3) mem by simp
  next
    case False
    then show ?thesis
      using inv that others [OF False] by (simp add: collect_inv_def)
  qed
  have cnt: "completed_moves mv \<le> move_idx mv" "move_idx mv \<le> length moves"
      "card {w'. 1 \<le> w' \<and> w' < nprocs \<and> c_outbox cl w' \<noteq> []} = move_idx mv - completed_moves mv"
    using inv by (simp_all add: collect_inv_def)
  have all_busy: "c_outbox cl' w' \<noteq> []" if "1 \<le> w'" "w' < nprocs" "w' \<notin> todo - {w}" for w'
  proof (cases "w' = w")
    case True
    then show ?thesis using ne by simp
  next
    case False
    then have "w' \<notin> todo" using that(3) by simp
    then have "c_outbox cl w' \<noteq> []"
      using inv more that(1,2) by (simp add: collect_inv_def)
    then show ?thesis using others(1) [OF False] by simp
  qed
  have todo: "c_outbox cl' w' = []" if "w' \<in> todo - {w}" for w'
    using inv that others(1) [of w'] by (simp add: collect_inv_def)
  have best: "(if completed_moves mv = 0 then score (best_result mv) = - INFINITE E
      else \<exists>m pvl. pv (best_result mv) = Some (m # pvl) \<and> m \<in> set moves)"
    using inv by (auto simp: collect_inv_def split: if_splits)
  show ?thesis
    unfolding collect_inv_def cl'_def [symmetric]
    using per cnt card more all_busy todo best by (auto simp: Suc_diff_le split: if_splits)
qed

lemma consume_inv:
  assumes inv: "collect_inv E nprocs moves {} mv cl"
    and w: "1 \<le> w" "w < nprocs" and busy: "c_outbox cl w \<noteq> []" and s: "s < INFINITE E"
  shows "collect_inv E nprocs moves {w}
           (mv\<lparr>best_result := (if score (worker_result_of (worker_moves mv w) s len vals) > score (best_result mv)
                                then worker_result_of (worker_moves mv w) s len vals else best_result mv),
               completed_moves := completed_moves mv + 1,
               worker_busy := (worker_busy mv)(w := False)\<rparr>)
           (cl\<lparr>c_outbox := (c_outbox cl)(w := [])\<rparr>)"
proof -
  define wr where "wr = worker_result_of (worker_moves mv w) s len vals"
  have wrs: "score wr = - s" "\<exists>pvl. pv wr = Some (worker_moves mv w # pvl)"
    by (simp_all add: wr_def worker_result_of_def)
  have wm: "worker_moves mv w \<in> set moves"
    using inv w busy by (simp add: collect_inv_def)
  have old: "{w'. 1 \<le> w' \<and> w' < nprocs \<and> ((c_outbox cl)(w := [])) w' \<noteq> []} =
             {w'. 1 \<le> w' \<and> w' < nprocs \<and> c_outbox cl w' \<noteq> []} - {w}"
    by auto
  have inb: "w \<in> {w'. 1 \<le> w' \<and> w' < nprocs \<and> c_outbox cl w' \<noteq> []}"
    using w busy by simp
  have cnt: "completed_moves mv \<le> move_idx mv" "move_idx mv \<le> length moves"
      "card {w'. 1 \<le> w' \<and> w' < nprocs \<and> c_outbox cl w' \<noteq> []} = move_idx mv - completed_moves mv"
    using inv by (simp_all add: collect_inv_def)
  have pos: "0 < card {w'. 1 \<le> w' \<and> w' < nprocs \<and> c_outbox cl w' \<noteq> []}"
    using inb busy_finite [of nprocs cl] by (auto simp: card_gt_0_iff)
  have card: "card {w'. 1 \<le> w' \<and> w' < nprocs \<and> ((c_outbox cl)(w := [])) w' \<noteq> []} =
              move_idx mv - (completed_moves mv + 1)"
    unfolding old using inb busy_finite [of nprocs cl] cnt(3) by simp
  have lt: "completed_moves mv + 1 \<le> move_idx mv"
    using pos cnt(3) by simp
  have per: "\<not> c_exited cl w' \<and> tt_ok E (snd (c_workers cl w')) \<and>
        (((c_outbox cl)(w := [])) w' = [] \<or> good_reply E (((c_outbox cl)(w := [])) w')) \<and>
        (((c_outbox cl)(w := [])) w' \<noteq> [] \<longrightarrow> worker_moves mv w' \<in> set moves)"
    if "1 \<le> w'" "w' < nprocs" for w'
    using inv that by (simp add: collect_inv_def)
  have all_busy: "((c_outbox cl)(w := [])) w' \<noteq> []"
    if "move_idx mv < length moves" "1 \<le> w'" "w' < nprocs" "w' \<notin> {w}" for w'
    using inv that by (simp add: collect_inv_def)
  have best0: "(if completed_moves mv = 0 then score (best_result mv) = - INFINITE E
      else \<exists>m pvl. pv (best_result mv) = Some (m # pvl) \<and> m \<in> set moves)"
    using inv by (auto simp: collect_inv_def split: if_splits)
  have best: "\<exists>m pvl. pv (if score wr > score (best_result mv) then wr else best_result mv) = Some (m # pvl) \<and>
                m \<in> set moves"
  proof (cases "score wr > score (best_result mv)")
    case True
    then show ?thesis using wrs(2) wm by auto
  next
    case False
    then have "completed_moves mv \<noteq> 0"
      using best0 wrs(1) s by (cases "completed_moves mv = 0") auto
    then show ?thesis using best0 False by simp
  qed
  show ?thesis
    unfolding collect_inv_def wr_def [symmetric]
    using per cnt(2) card lt all_busy best by simp
qed

lemma recv_any_source_busy:
  assumes inv: "collect_inv E nprocs moves {} mv cl"
    and todo: "completed_moves mv < length moves" and n: "2 \<le> nprocs"
  shows "\<exists>w cl1. recv_any_source nprocs cl = Some (w, cl1) \<and> 1 \<le> w \<and> w < nprocs \<and>
           c_outbox cl w \<noteq> [] \<and> c_outbox cl1 = c_outbox cl \<and> c_workers cl1 = c_workers cl \<and>
           c_exited cl1 = c_exited cl"
proof -
  define ready where "ready = filter (\<lambda>w. c_outbox cl w \<noteq> []) [1..<nprocs]"
  have sr: "set ready = {w. 1 \<le> w \<and> w < nprocs \<and> c_outbox cl w \<noteq> []}"
    by (auto simp: ready_def)
  have cnt: "move_idx mv \<le> length moves"
      "card {w'. 1 \<le> w' \<and> w' < nprocs \<and> c_outbox cl w' \<noteq> []} = move_idx mv - completed_moves mv"
    using inv by (simp_all add: collect_inv_def)
  have "set ready \<noteq> {}"
  proof (cases "move_idx mv < length moves")
    case True
    then have "c_outbox cl 1 \<noteq> []"
      using inv n by (simp add: collect_inv_def)
    then have "1 \<in> set ready" using n by (simp add: sr)
    then show ?thesis by auto
  next
    case False
    then have "0 < card (set ready)"
      using cnt todo by (simp add: sr)
    then show ?thesis by (auto simp: card_gt_0_iff)
  qed
  then have ne: "ready \<noteq> []" by simp
  then have nee: "(ready = []) = False" by simp
  have pick: "hd ready \<in> set ready" "ready ! (k mod length ready) \<in> set ready" for k
    using ne by simp_all
  show ?thesis
  proof (cases "c_sched cl")
    case Nil
    have "recv_any_source nprocs cl = Some (hd ready, cl)"
      by (simp only: recv_any_source_def Let_def ready_def [symmetric] nee if_False Nil list.case)
    then show ?thesis using pick(1) sr by auto
  next
    case (Cons k ks)
    have "recv_any_source nprocs cl = Some (ready ! (k mod length ready), cl\<lparr>c_sched := ks\<rparr>)"
      by (simp only: recv_any_source_def Let_def ready_def [symmetric] nee if_False Cons list.case)
    then show ?thesis using pick(2) [of k] sr by auto
  qed
qed

lemma master_step_inv:
  assumes ok: "score_constants_ok E"
    and fen: "\<forall>m\<in>set moves. fen E (make_move E pos m) \<noteq> []"
    and inv: "collect_inv E nprocs moves {} mv cl1"
    and w: "1 \<le> w" "w < nprocs" and busy: "c_outbox cl1 w \<noteq> []" and s: "s < INFINITE E"
    and step: "master_step E pos depth moves w (s, n, len, vals, []) (mv, sg, cl1) = (mv', sg', cl')"
  shows "collect_inv E nprocs moves {} mv' cl'" and "completed_moves mv' = completed_moves mv + 1"
proof -
  define mv1 where "mv1 = mv\<lparr>best_result := (if score (worker_result_of (worker_moves mv w) s len vals) > score (best_result mv)
                                then worker_result_of (worker_moves mv w) s len vals else best_result mv),
               completed_moves := completed_moves mv + 1,
               worker_busy := (worker_busy mv)(w := False)\<rparr>"
  define cl2 where "cl2 = cl1\<lparr>c_outbox := (c_outbox cl1)(w := [])\<rparr>"
  have i1: "collect_inv E nprocs moves {w} mv1 cl2"
    unfolding mv1_def cl2_def by (rule consume_inv [OF inv w busy s])
  have idle: "c_outbox cl2 w = []" by (simp add: cl2_def)
  have alive: "\<not> c_exited cl2 w"
    using i1 w by (simp add: collect_inv_def)
  have mi: "move_idx mv1 = move_idx mv" "completed_moves mv1 = completed_moves mv + 1"
    by (simp_all add: mv1_def)
  have both: "collect_inv E nprocs moves {} mv' cl' \<and> completed_moves mv' = completed_moves mv + 1"
  proof (cases "move_idx mv1 < length moves")
    case True
    then have f: "fen E (make_move E pos (moves ! move_idx mv1)) \<noteq> []"
      using fen by simp
    have "master_step E pos depth moves w (s, n, len, vals, []) (mv, sg, cl1) =
          (mv1\<lparr>worker_busy := (worker_busy mv1)(w := True),
               worker_moves := (worker_moves mv1)(w := moves ! move_idx mv1),
               move_idx := move_idx mv1 + 1\<rparr>,
           (increment_nodes ^^ n) sg, send_work E pos depth (moves ! move_idx mv1) w cl2)"
      using True
      by (simp only: master_step_def prod.case Let_def mv1_def [symmetric] cl2_def [symmetric] if_True)
    then have eq: "mv' = mv1\<lparr>worker_busy := (worker_busy mv1)(w := True),
               worker_moves := (worker_moves mv1)(w := moves ! move_idx mv1),
               move_idx := move_idx mv1 + 1\<rparr>"
          "cl' = send_work E pos depth (moves ! move_idx mv1) w cl2"
      using step by simp_all
    have "collect_inv E nprocs moves {} mv' cl'"
      unfolding eq using dispatch_inv [OF ok f i1 w idle True, where depth = depth] by simp
    moreover have "completed_moves mv' = completed_moves mv + 1"
      unfolding eq using mi by simp
    ultimately show ?thesis by simp
  next
    case False
    have "master_step E pos depth moves w (s, n, len, vals, []) (mv, sg, cl1) =
          (mv1, (increment_nodes ^^ n) sg, deliver E w [Wint 0] cl2)"
      using False
      by (simp only: master_step_def prod.case Let_def mv1_def [symmetric] cl2_def [symmetric] if_False)
    then have eq: "mv' = mv1" "cl' = deliver E w [Wint 0] cl2"
      using step by simp_all
    have "collect_inv E nprocs moves {} mv1 cl2"
      using i1 False idle by (auto simp: collect_inv_def split: if_splits)
    then have "collect_inv E nprocs moves {} mv' cl'"
      unfolding eq by (simp add: collect_inv_cong [OF no_work_effect [OF alive, of E]])
    moreover have "completed_moves mv' = completed_moves mv + 1"
      unfolding eq using mi by simp
    ultimately show ?thesis by simp
  qed
  show "collect_inv E nprocs moves {} mv' cl'" and "completed_moves mv' = completed_moves mv + 1"
    using both by simp_all
qed

lemma collect_results_completes:
  assumes ok: "score_constants_ok E"
    and fen: "\<forall>m\<in>set moves. fen E (make_move E pos m) \<noteq> []"
    and n: "2 \<le> nprocs"
  shows "collect_inv E nprocs moves {} mv cl \<Longrightarrow>
         \<exists>mv' sg' cl'. collect_results E nprocs pos depth moves mv sg cl = Some (mv', sg', cl') \<and>
            collect_inv E nprocs moves {} mv' cl' \<and> length moves \<le> completed_moves mv'"
proof (induction "length moves - completed_moves mv" arbitrary: mv sg cl)
  case 0
  have "\<not> completed_moves mv < length moves"
    using 0(1) by simp
  then have "collect_results E nprocs pos depth moves mv sg cl = Some (mv, sg, cl)"
      and "length moves \<le> completed_moves mv"
    by (simp_all add: collect_results_step [of E nprocs pos depth moves mv sg cl])
  with 0(2) show ?case by simp
next
  case (Suc k)
  then have lt: "completed_moves mv < length moves" by simp
  obtain w cl1 where recv: "recv_any_source nprocs cl = Some (w, cl1)" and w: "1 \<le> w" "w < nprocs"
      and busy: "c_outbox cl w \<noteq> []"
      and same: "c_outbox cl1 = c_outbox cl" "c_workers cl1 = c_workers cl" "c_exited cl1 = c_exited cl"
    using recv_any_source_busy [OF Suc(3) lt n] by blast
  have inv1: "collect_inv E nprocs moves {} mv cl1"
    using Suc(3) by (simp add: collect_inv_cong [OF same])
  have busy1: "c_outbox cl1 w \<noteq> []" using busy same(1) by simp
  have "good_reply E (c_outbox cl1 w)"
    using inv1 w busy1 by (auto simp: collect_inv_def)
  then obtain s nn len vals where parse: "parse_reply (c_outbox cl1 w) = Some (s, nn, len, vals, [])"
      and s: "s < INFINITE E"
    using good_reply_parse(2) by blast
  obtain mv2 sg2 cl2 where step:
      "master_step E pos depth moves w (s, nn, len, vals, []) (mv, sg, cl1) = (mv2, sg2, cl2)"
    by (cases "master_step E pos depth moves w (s, nn, len, vals, []) (mv, sg, cl1)")
  note st = master_step_inv [OF ok fen inv1 w busy1 s step]
  have unfold: "collect_results E nprocs pos depth moves mv sg cl =
                collect_results E nprocs pos depth moves mv2 sg2 cl2"
    using lt recv parse step
    by (simp add: collect_results_step [of E nprocs pos depth moves mv sg cl])
  have "k = length moves - completed_moves mv2"
    using Suc(2) st(2) by simp
  from Suc(1) [OF this st(1), of sg2] show ?case
    unfolding unfold .
qed

lemma initial_work_inv:
  assumes ok: "score_constants_ok E"
    and fen: "\<forall>m\<in>set moves. fen E (make_move E pos m) \<noteq> []"
  shows "distinct ws \<Longrightarrow> \<forall>w\<in>set ws. 1 \<le> w \<and> w < nprocs \<Longrightarrow>
         collect_inv E nprocs moves (set ws) mv cl \<Longrightarrow> completed_moves mv = 0 \<Longrightarrow>
         collect_inv E nprocs moves {} (fst (initial_work E pos depth moves ws (mv, cl)))
           (snd (initial_work E pos depth moves ws (mv, cl))) \<and>
         completed_moves (fst (initial_work E pos depth moves ws (mv, cl))) = 0"
proof (induction ws arbitrary: mv cl)
  case Nil
  then show ?case by simp
next
  case (Cons w ws)
  have w: "1 \<le> w" "w < nprocs" and nw: "w \<notin> set ws" and d: "distinct ws"
      and rest: "\<forall>w\<in>set ws. 1 \<le> w \<and> w < nprocs"
    using Cons.prems(1,2) by simp_all
  have idle: "c_outbox cl w = []" and alive: "\<not> c_exited cl w"
    using Cons.prems(3) w by (simp_all add: collect_inv_def)
  show ?case
  proof (cases "move_idx mv < length moves")
    case True
    then have f: "fen E (make_move E pos (moves ! move_idx mv)) \<noteq> []"
      using fen by simp
    define mv1 where "mv1 = mv\<lparr>worker_busy := (worker_busy mv)(w := True),
               worker_moves := (worker_moves mv)(w := moves ! move_idx mv),
               move_idx := move_idx mv + 1\<rparr>"
    define cl1 where "cl1 = send_work E pos depth (moves ! move_idx mv) w cl"
    have "collect_inv E nprocs moves (set (w # ws) - {w}) mv1 cl1"
      unfolding mv1_def cl1_def by (rule dispatch_inv [OF ok f Cons.prems(3) w idle True])
    then have i1: "collect_inv E nprocs moves (set ws) mv1 cl1"
      using nw by simp
    have c1: "completed_moves mv1 = 0"
      using Cons.prems(4) by (simp add: mv1_def)
    have eq: "initial_work E pos depth moves (w # ws) (mv, cl) = initial_work E pos depth moves ws (mv1, cl1)"
      using True by (simp add: Let_def mv1_def cl1_def)
    show ?thesis
      unfolding eq using Cons.IH [OF d rest i1 c1] .
  next
    case False
    define mv1 where "mv1 = mv\<lparr>worker_busy := (worker_busy mv)(w := False)\<rparr>"
    define cl1 where "cl1 = deliver E w [Wint 0] cl"
    have "collect_inv E nprocs moves (set ws) mv cl"
      using Cons.prems(3) False by (auto simp: collect_inv_def split: if_splits)
    then have "collect_inv E nprocs moves (set ws) mv cl1"
      unfolding cl1_def by (simp add: collect_inv_cong [OF no_work_effect [OF alive, of E]])
    then have i1: "collect_inv E nprocs moves (set ws) mv1 cl1"
      by (auto simp: collect_inv_def mv1_def split: if_splits)
    have c1: "completed_moves mv1 = 0"
      using Cons.prems(4) by (simp add: mv1_def)
    have eq: "initial_work E pos depth moves (w # ws) (mv, cl) = initial_work E pos depth moves ws (mv1, cl1)"
      using False by (simp add: Let_def mv1_def cl1_def)
    show ?thesis
      unfolding eq using Cons.IH [OF d rest i1 c1] .
  qed
qed



section \<open>The terminate signal\<close>

lemma increment_nodes_stop_flag: "stop_flag ((increment_nodes ^^ k) sg) = stop_flag sg"
  by (induction k) (simp_all add: increment_nodes_def)

lemma collect_results_stop_flag:
  "collect_results E nprocs pos depth moves mv sg cl = Some (mv', sg', cl') \<Longrightarrow>
   stop_flag sg' = stop_flag sg"
proof (induction "length moves - completed_moves mv" arbitrary: mv sg cl)
  case 0
  have "\<not> completed_moves mv < length moves"
    using 0(1) by simp
  then have "collect_results E nprocs pos depth moves mv sg cl = Some (mv, sg, cl)"
    by (simp add: collect_results_step [of E nprocs pos depth moves mv sg cl])
  with 0(2) show ?case by simp
next
  case (Suc k)
  then have lt: "completed_moves mv < length moves" by simp
  obtain worker cl1 where recv: "recv_any_source nprocs cl = Some (worker, cl1)"
    using Suc(3) lt
    by (auto simp: collect_results_step [of E nprocs pos depth moves mv sg cl] split: option.splits)
  obtain reply where reply: "parse_reply (c_outbox cl1 worker) = Some reply"
    using Suc(3) lt recv
    by (auto simp: collect_results_step [of E nprocs pos depth moves mv sg cl] split: option.splits)
  obtain mv1 sg1 cl2 where step: "master_step E pos depth moves worker reply (mv, sg, cl1) = (mv1, sg1, cl2)"
    by (cases "master_step E pos depth moves worker reply (mv, sg, cl1)")
  have rest: "collect_results E nprocs pos depth moves mv1 sg1 cl2 = Some (mv', sg', cl')"
    using Suc(3) lt recv reply step
    by (simp add: collect_results_step [of E nprocs pos depth moves mv sg cl])
  have cm: "completed_moves mv1 = completed_moves mv + 1" and s1: "stop_flag sg1 = stop_flag sg"
    using step
    by (auto simp: master_step_def Let_def increment_nodes_stop_flag split: prod.splits if_splits)
  have "k = length moves - completed_moves mv1"
    using Suc(2) cm by simp
  from Suc(1) [OF this rest] s1 show ?case by simp
qed

text \<open>
  A round of the master with at least one worker, on a root position with a legal move,
  started with every worker alive and idle: it returns, with a principal variation, the
  stop flag of the master as it was, and every worker alive and idle again.
\<close>

lemma search_mpi_round:
  assumes ok: "score_constants_ok E"
    and fen: "\<forall>m\<in>set (legal_move_list E pos). fen E (make_move E pos m) \<noteq> []"
    and n: "2 \<le> nprocs"
    and workers: "\<forall>w. 1 \<le> w \<and> w < nprocs \<longrightarrow>
                    \<not> c_exited cl w \<and> c_outbox cl w = [] \<and> tt_ok E (snd (c_workers cl w))"
    and moves: "legal_move_list E pos \<noteq> []"
  shows "\<exists>r st' cl'. search_mpi E 0 nprocs pos depth st cl = Some (r, st', cl') \<and>
            (\<exists>m pvl. pv r = Some (m # pvl)) \<and> stop_flag (fst st') = stop_flag (fst st) \<and>
            (\<forall>w. 1 \<le> w \<and> w < nprocs \<longrightarrow>
               \<not> c_exited cl' w \<and> c_outbox cl' w = [] \<and> tt_ok E (snd (c_workers cl' w)))"
proof -
  define ms where "ms = sort_moves E pos (legal_move_list E pos) None"
  have sm: "set ms = set (legal_move_list E pos)"
    by (simp add: ms_def set_sort_moves)
  have ne: "ms \<noteq> []"
    using moves sm by (metis set_empty)
  have fen': "\<forall>m\<in>set ms. fen E (make_move E pos m) \<noteq> []"
    using fen sm by simp
  define mv0 where "mv0 = \<lparr>best_result = \<lparr>score = - INFINITE E, pv = None\<rparr>, move_idx = 0,
      completed_moves = 0, worker_moves = (\<lambda>w. Move 0), worker_busy = (\<lambda>w. False)\<rparr>"
  have empty: "{w. 1 \<le> w \<and> w < nprocs \<and> c_outbox cl w \<noteq> []} = {}"
    using workers by auto
  have inv0: "collect_inv E nprocs ms (set [1..<nprocs]) mv0 cl"
    unfolding collect_inv_def empty using workers by (simp add: mv0_def)
  obtain mv1 cl1 where iw: "initial_work E pos depth ms [1..<nprocs] (mv0, cl) = (mv1, cl1)"
    by (cases "initial_work E pos depth ms [1..<nprocs] (mv0, cl)")
  have inv1: "collect_inv E nprocs ms {} mv1 cl1"
    using initial_work_inv [OF ok fen', of "[1..<nprocs]" nprocs mv0 cl depth] inv0 iw
    by (simp add: mv0_def)
  obtain mv2 sg2 cl2 where cr: "collect_results E nprocs pos depth ms mv1 (fst st) cl1 = Some (mv2, sg2, cl2)"
      and inv2: "collect_inv E nprocs ms {} mv2 cl2" and all_done: "length ms \<le> completed_moves mv2"
    using collect_results_completes [OF ok fen' n inv1] by blast
  have run: "search_mpi E 0 nprocs pos depth st cl = Some (best_result mv2, (sg2, snd st), cl2)"
    using ne n iw cr
    by (simp add: search_mpi_def Let_def ms_def [symmetric] mv0_def [symmetric])
  have c0: "completed_moves mv2 \<noteq> 0"
    using all_done ne by (cases ms) auto
  have best: "\<exists>m pvl. pv (best_result mv2) = Some (m # pvl)"
    using inv2 c0 by (auto simp: collect_inv_def split: if_splits)
  have cnt: "card {w. 1 \<le> w \<and> w < nprocs \<and> c_outbox cl2 w \<noteq> []} = 0"
    using inv2 all_done by (auto simp: collect_inv_def)
  then have idle: "{w. 1 \<le> w \<and> w < nprocs \<and> c_outbox cl2 w \<noteq> []} = {}"
    using busy_finite [of nprocs cl2] by simp
  have final: "\<forall>w. 1 \<le> w \<and> w < nprocs \<longrightarrow>
               \<not> c_exited cl2 w \<and> c_outbox cl2 w = [] \<and> tt_ok E (snd (c_workers cl2 w))"
    using inv2 idle by (auto simp: collect_inv_def)
  have flag: "stop_flag (fst (sg2, snd st)) = stop_flag (fst st)"
    using collect_results_stop_flag [OF cr] by simp
  show ?thesis
    using run best final flag by blast
qed

lemma id_loop_mpi_completes:
  "score_constants_ok E \<Longrightarrow> \<forall>m\<in>set (legal_move_list E pos). fen E (make_move E pos m) \<noteq> [] \<Longrightarrow>
   2 \<le> nprocs \<Longrightarrow>
   \<forall>w. 1 \<le> w \<and> w < nprocs \<longrightarrow> \<not> c_exited cl w \<and> c_outbox cl w = [] \<and> tt_ok E (snd (c_workers cl w)) \<Longrightarrow>
   legal_move_list E pos \<noteq> [] \<Longrightarrow> \<not> stop_flag (fst st) \<Longrightarrow>
   \<exists>bm st' cl'. id_loop_mpi E nprocs pos depth max_depth best_move st cl = Some (bm, st', cl') \<and>
      \<not> stop_flag (fst st')"
proof (induction E nprocs pos depth max_depth best_move st cl rule: id_loop_mpi.induct)
  case (1 E nprocs pos depth max_depth best_move st cl)
  show ?case
  proof (cases "depth \<le> max_depth")
    case False
    then show ?thesis
      using "1.prems"(6) by (simp add: id_loop_mpi.simps [of E nprocs pos depth max_depth best_move st cl])
  next
    case True
    obtain r st1 cl1 m pvl where round: "search_mpi E 0 nprocs pos depth st cl = Some (r, st1, cl1)"
        and pv: "pv r = Some (m # pvl)" and flag: "stop_flag (fst st1) = stop_flag (fst st)"
        and workers1: "\<forall>w. 1 \<le> w \<and> w < nprocs \<longrightarrow>
               \<not> c_exited cl1 w \<and> c_outbox cl1 w = [] \<and> tt_ok E (snd (c_workers cl1 w))"
      using search_mpi_round [OF "1.prems"(1-5), of depth st] by blast
    have ns: "\<not> stop_flag (fst st1)"
      using flag "1.prems"(6) by simp
    then have ns': "\<not> (1 < depth \<and> stop_flag (fst st1))" by simp
    have unfold: "id_loop_mpi E nprocs pos depth max_depth best_move st cl =
                  id_loop_mpi E nprocs pos (depth + 1) max_depth (Some m) st1 cl1"
      using True round ns pv
      by (simp add: id_loop_mpi.simps [of E nprocs pos depth max_depth best_move st cl])
    show ?thesis
      unfolding unfold
      using "1.IH" [OF True round refl refl ns' pv refl "1.prems"(1-3) workers1 "1.prems"(5) ns] .
  qed
qed

text \<open>
  Claim C6 (terminate signal), as amended. The spec states that the terminate signal
  (length prefix \<open>-1\<close>) is never sent during a per-depth round and is sent only after the
  iterative-deepening loop of \<open>best_move_search\<close> ends. On a root position without a
  legal move this fails: the round itself returns having sent \<open>-1\<close> to every worker and
  nothing else (lines 368-376; first conjunct, for every such position and every state
  of the workers). On a root position with a legal move it holds. Whatever the state of
  the workers (second conjunct): a round at depth \<open>\<ge> 1\<close> that returns has sent no \<open>-1\<close>,
  and a call of \<open>best_move_search\<close> that returns has sent the messages of its rounds,
  without a \<open>-1\<close>, and after them either nothing more or one \<open>-1\<close> to every worker. For
  a master with at least one worker, started with every worker alive and idle (third
  conjunct): the round returns, \<open>best_move_search\<close> returns, and after the messages of
  its rounds it has sent one \<open>-1\<close> to every worker.
\<close>

theorem terminate_signal_after_loop:
  "(legal_move_list E pos = [] \<longrightarrow>
      (\<exists>r cl1. search_mpi E 0 nprocs pos depth st cl = Some (r, st, cl1) \<and>
         c_sent cl1 = c_sent cl @ map (\<lambda>worker. (worker, Wint (- 1))) [1..<nprocs])) \<and>
   (legal_move_list E pos \<noteq> [] \<longrightarrow>
      (\<forall>r st1 cl1. 1 \<le> depth \<and> search_mpi E 0 nprocs pos depth st cl = Some (r, st1, cl1) \<longrightarrow>
         (\<exists>new. c_sent cl1 = c_sent cl @ new \<and> Wint (- 1) \<notin> snd ` set new)) \<and>
      (\<forall>bm st' cl'. best_move_search_mpi E 0 nprocs pos st max_depth cl = Some (bm, st', cl') \<longrightarrow>
         (\<exists>rounds final. c_sent cl' = c_sent cl @ rounds @ final \<and> Wint (- 1) \<notin> snd ` set rounds \<and>
            (final = [] \<or> final = map (\<lambda>worker. (worker, Wint (- 1))) [1..<nprocs])))) \<and>
   (legal_move_list E pos \<noteq> [] \<and> score_constants_ok E \<and>
    (\<forall>m\<in>set (legal_move_list E pos). fen E (make_move E pos m) \<noteq> []) \<and> 2 \<le> nprocs \<and>
    (\<forall>w. 1 \<le> w \<and> w < nprocs \<longrightarrow>
       \<not> c_exited cl w \<and> c_outbox cl w = [] \<and> tt_ok E (snd (c_workers cl w))) \<longrightarrow>
      (1 \<le> depth \<longrightarrow>
         (\<exists>r st1 cl1 new. search_mpi E 0 nprocs pos depth st cl = Some (r, st1, cl1) \<and>
            c_sent cl1 = c_sent cl @ new \<and> Wint (- 1) \<notin> snd ` set new)) \<and>
      (\<exists>bm st' cl' rounds. best_move_search_mpi E 0 nprocs pos st max_depth cl = Some (bm, st', cl') \<and>
         Wint (- 1) \<notin> snd ` set rounds \<and>
         c_sent cl' = c_sent cl @ rounds @ map (\<lambda>worker. (worker, Wint (- 1))) [1..<nprocs]))"
proof -
  have no_moves: "\<exists>r cl1. search_mpi E 0 nprocs pos depth st cl = Some (r, st, cl1) \<and>
         c_sent cl1 = c_sent cl @ map (\<lambda>worker. (worker, Wint (- 1))) [1..<nprocs]"
    if nomoves: "legal_move_list E pos = []"
  proof -
    have "search_mpi E 0 nprocs pos depth st cl =
          Some (\<lparr>score = (if in_check E pos then - MATE_SCORE E else 0), pv = None\<rparr>, st,
                fold (\<lambda>worker. deliver E worker [Wint (- 1)]) [1..<nprocs] cl)"
      using nomoves by (simp add: search_mpi_def sort_moves_def move_list_sort_def)
    then show ?thesis
      using terminate_all_sent [of E "[1..<nprocs]" cl] by blast
  qed
  have round_safe: "\<exists>new. c_sent cl1 = c_sent cl @ new \<and> Wint (- 1) \<notin> snd ` set new"
    if "legal_move_list E pos \<noteq> []" "1 \<le> depth" "search_mpi E 0 nprocs pos depth st cl = Some (r, st1, cl1)"
    for r st1 cl1
  proof -
    have "depth \<noteq> - 1" using that(2) by simp
    from search_mpi_sent [OF that(1) this that(3)] show ?thesis .
  qed
  have loop_safe: "\<exists>rounds final. c_sent cl' = c_sent cl @ rounds @ final \<and> Wint (- 1) \<notin> snd ` set rounds \<and>
            (final = [] \<or> final = map (\<lambda>worker. (worker, Wint (- 1))) [1..<nprocs])"
    if moves: "legal_move_list E pos \<noteq> []"
      and run: "best_move_search_mpi E 0 nprocs pos st max_depth cl = Some (bm, st', cl')"
    for bm st' cl'
  proof -
    have loop: "id_loop_mpi E nprocs pos 1 max_depth None
                  ((fst st)\<lparr>stop_flag := False, nodes := 0\<rparr>, mpi_clear (snd st)) cl = Some (bm, st', cl')"
      using run by (simp add: best_move_search_mpi_def)
    obtain rounds where r: "Wint (- 1) \<notin> snd ` set rounds"
        "c_sent cl' = c_sent cl @ rounds @ map (\<lambda>worker. (worker, Wint (- 1))) [1..<nprocs] \<or>
         c_sent cl' = c_sent cl @ rounds \<and> stop_flag (fst st')"
      using id_loop_mpi_sent [OF moves _ loop] by auto
    from r(2) show ?thesis
    proof
      assume "c_sent cl' = c_sent cl @ rounds @ map (\<lambda>worker. (worker, Wint (- 1))) [1..<nprocs]"
      then show ?thesis using r(1) by blast
    next
      assume "c_sent cl' = c_sent cl @ rounds \<and> stop_flag (fst st')"
      then have "c_sent cl' = c_sent cl @ rounds @ []" by simp
      then show ?thesis using r(1) by blast
    qed
  qed
  have round_total: "\<exists>r st1 cl1 new. search_mpi E 0 nprocs pos depth st cl = Some (r, st1, cl1) \<and>
            c_sent cl1 = c_sent cl @ new \<and> Wint (- 1) \<notin> snd ` set new"
    if moves: "legal_move_list E pos \<noteq> []" and ok: "score_constants_ok E"
      and fen: "\<forall>m\<in>set (legal_move_list E pos). fen E (make_move E pos m) \<noteq> []" and n: "2 \<le> nprocs"
      and workers: "\<forall>w. 1 \<le> w \<and> w < nprocs \<longrightarrow>
         \<not> c_exited cl w \<and> c_outbox cl w = [] \<and> tt_ok E (snd (c_workers cl w))"
      and d: "1 \<le> depth"
  proof -
    obtain r st1 cl1 where round: "search_mpi E 0 nprocs pos depth st cl = Some (r, st1, cl1)"
      using search_mpi_round [OF ok fen n workers moves, of depth st] by blast
    from round_safe [OF moves d round] round show ?thesis by blast
  qed
  have loop_total: "\<exists>bm st' cl' rounds. best_move_search_mpi E 0 nprocs pos st max_depth cl = Some (bm, st', cl') \<and>
         Wint (- 1) \<notin> snd ` set rounds \<and>
         c_sent cl' = c_sent cl @ rounds @ map (\<lambda>worker. (worker, Wint (- 1))) [1..<nprocs]"
    if moves: "legal_move_list E pos \<noteq> []" and ok: "score_constants_ok E"
      and fen: "\<forall>m\<in>set (legal_move_list E pos). fen E (make_move E pos m) \<noteq> []" and n: "2 \<le> nprocs"
      and workers: "\<forall>w. 1 \<le> w \<and> w < nprocs \<longrightarrow>
         \<not> c_exited cl w \<and> c_outbox cl w = [] \<and> tt_ok E (snd (c_workers cl w))"
  proof -
    define st0 where "st0 = ((fst st)\<lparr>stop_flag := False, nodes := 0\<rparr>, mpi_clear (snd st))"
    have ns: "\<not> stop_flag (fst st0)" by (simp add: st0_def)
    obtain bm st' cl' where loop: "id_loop_mpi E nprocs pos 1 max_depth None st0 cl = Some (bm, st', cl')"
        and ns': "\<not> stop_flag (fst st')"
      using id_loop_mpi_completes [OF ok fen n workers moves ns, of 1 max_depth None] by blast
    have run: "best_move_search_mpi E 0 nprocs pos st max_depth cl = Some (bm, st', cl')"
      using loop by (simp add: best_move_search_mpi_def st0_def)
    obtain rounds where "Wint (- 1) \<notin> snd ` set rounds"
        "c_sent cl' = c_sent cl @ rounds @ map (\<lambda>worker. (worker, Wint (- 1))) [1..<nprocs]"
      using id_loop_mpi_sent [OF moves _ loop] ns' by auto
    with run show ?thesis by blast
  qed
  show ?thesis
    using no_moves round_safe loop_safe round_total loop_total by blast
qed

theorem terminate_signal_after_loop_witness:
  "legal_move_list toy 2 = [] \<and>
   (\<exists>r cl1. search_mpi toy 0 2 2 1 (sg0, tt_empty) cl0 = Some (r, (sg0, tt_empty), cl1) \<and>
      c_sent cl1 = c_sent cl0 @ map (\<lambda>worker. (worker, Wint (- 1))) [1..<2]) \<and>
   legal_move_list toy 0 \<noteq> [] \<and> (1::int) \<le> 1 \<and>
   (\<exists>r st1 cl1 new. search_mpi toy 0 2 0 1 (sg0, tt_empty) cl0 = Some (r, st1, cl1) \<and>
      c_sent cl1 = c_sent cl0 @ new \<and> Wint (- 1) \<notin> snd ` set new) \<and>
   (\<exists>bm st' cl' rounds. best_move_search_mpi toy 0 2 0 (sg0, tt_empty) 1 cl0 = Some (bm, st', cl') \<and>
      Wint (- 1) \<notin> snd ` set rounds \<and>
      c_sent cl' = c_sent cl0 @ rounds @ map (\<lambda>worker. (worker, Wint (- 1))) [1..<2])"
proof -
  have ok: "score_constants_ok toy"
    by (simp add: score_constants_ok_def toy_def)
  have fen: "\<forall>m\<in>set (legal_move_list toy 0). fen toy (make_move toy 0 m) \<noteq> []"
    by (simp add: toy_def)
  have workers: "\<forall>w. 1 \<le> w \<and> w < 2 \<longrightarrow>
                    \<not> c_exited cl0 w \<and> c_outbox cl0 w = [] \<and> tt_ok toy (snd (c_workers cl0 w))"
    by (simp add: cl0_def tt_ok_def tt_empty_def mpi_clear_def default_entry_def toy_def)
  have moves: "legal_move_list toy 0 \<noteq> []" and nomoves: "legal_move_list toy 2 = []"
    by (simp_all add: toy_def)
  show ?thesis
    using terminate_signal_after_loop [of toy 2 2 1 "(sg0, tt_empty)" cl0 1]
          terminate_signal_after_loop [of toy 0 2 1 "(sg0, tt_empty)" cl0 1]
          ok fen workers moves nomoves
    by simp
qed

text \<open>
  The counterexample to the claim as the spec has it: a round on position 2, which has
  no legal move, with one worker.
\<close>

theorem terminate_signal_after_loop_counterexample:
  "legal_move_list toy 2 = [] \<and>
   (\<exists>r st1 cl1. search_mpi toy 0 2 2 1 (sg0, tt_empty) cl0 = Some (r, st1, cl1) \<and>
      c_sent cl1 = [(1, Wint (- 1))])"
  by (simp add: run_simps)

section \<open>A work item: the worker's search and the master's record\<close>

lemma worker_after_snoc:
  "worker_after E pos depth (ms @ [m]) wst =
     snd (search_child E pos depth m (worker_after E pos depth ms wst))"
  by (induction ms arbitrary: wst) simp_all

lemma worker_reply_parse:
  "parse_reply (worker_reply r n) =
     Some (score r, n, int (length (pv_moves r)), map (\<lambda>m. uint16 (move_value m)) (pv_moves r), [])"
  by (simp add: parse_reply_def worker_reply_def)

lemma worker_reply_record:
  "worker_result_of m (score r) (int (length (pv_moves r))) (map (\<lambda>x. uint16 (move_value x)) (pv_moves r)) =
     root_record m r"
  by (simp add: worker_result_of_def root_record_def)

lemma worker_search_child:
  assumes "fen E (make_move E pos m) \<noteq> []" and "CHR 0x00 \<notin> set (fen E (make_move E pos m))"
  shows "worker_search E (int (length (fen E (make_move E pos m)))) (fen E (make_move E pos m)) depth wst =
     (worker_reply (fst (search_child E pos depth m wst))
        (nodes (fst (snd (search_child E pos depth m wst))) - nodes (fst wst)),
      snd (search_child E pos depth m wst))"
proof -
  define f where "f = fen E (make_move E pos m)"
  have tw: "takeWhile (\<lambda>c. c \<noteq> CHR 0x00) f = f"
    using assms(2) by (auto simp: f_def takeWhile_eq_all_conv)
  obtain result wst1 where sc: "search_child E pos depth m wst = (result, wst1)"
    by (cases "search_child E pos depth m wst")
  then have search: "search_impl_mpi E (position_of_fen E f) (- INFINITE E) (INFINITE E) (depth - 1) 1 wst =
      (result, wst1)"
    by (simp add: search_child_def f_def)
  have "worker_search E (int (length f)) f depth wst =
      (worker_reply result (nodes (fst wst1) - nodes (fst wst)), wst1)"
    using search
    by (auto simp: worker_search_def Let_def tw worker_reply_def pv_moves_def split: option.splits)
  then show ?thesis
    by (simp add: sc f_def)
qed

lemma send_work_child:
  assumes alive: "\<not> c_exited cl w"
    and fen: "fen E (make_move E pos m) \<noteq> []" "CHR 0x00 \<notin> set (fen E (make_move E pos m))"
  shows "c_outbox (send_work E pos depth m w cl) w =
           c_outbox cl w @ worker_reply (fst (search_child E pos depth m (c_workers cl w)))
              (nodes (fst (snd (search_child E pos depth m (c_workers cl w)))) - nodes (fst (c_workers cl w)))"
    and "c_workers (send_work E pos depth m w cl) w = snd (search_child E pos depth m (c_workers cl w))"
    and "w' \<noteq> w \<Longrightarrow> c_outbox (send_work E pos depth m w cl) w' = c_outbox cl w' \<and>
           c_workers (send_work E pos depth m w cl) w' = c_workers cl w'"
proof -
  define f where "f = fen E (make_move E pos m)"
  have len: "int (length f) \<noteq> - 1" "int (length f) \<noteq> 0"
    using fen(1) by (simp_all add: f_def)
  have loop: "mpi_worker_loop E [Wint (int (length f)), Wchars f, Wint depth] (c_workers cl w) =
      (worker_reply (fst (search_child E pos depth m (c_workers cl w)))
        (nodes (fst (snd (search_child E pos depth m (c_workers cl w)))) - nodes (fst (c_workers cl w))),
       snd (search_child E pos depth m (c_workers cl w)), False)"
    using len by (simp add: worker_search_child [OF fen, folded f_def])
  note d = deliver_alive [OF alive loop]
  show "c_outbox (send_work E pos depth m w cl) w =
           c_outbox cl w @ worker_reply (fst (search_child E pos depth m (c_workers cl w)))
              (nodes (fst (snd (search_child E pos depth m (c_workers cl w)))) - nodes (fst (c_workers cl w)))"
    by (simp add: send_work_def Let_def f_def [symmetric] d)
  show "c_workers (send_work E pos depth m w cl) w = snd (search_child E pos depth m (c_workers cl w))"
    by (simp add: send_work_def Let_def f_def [symmetric] d)
  show "w' \<noteq> w \<Longrightarrow> c_outbox (send_work E pos depth m w cl) w' = c_outbox cl w' \<and>
           c_workers (send_work E pos depth m w cl) w' = c_workers cl w'"
    by (simp add: send_work_def Let_def f_def [symmetric] d)
qed

lemma worker_reply_nonempty: "worker_reply r n \<noteq> []"
  by (simp add: worker_reply_def)

lemma record_dispatch:
  assumes fen: "fen E (make_move E pos (moves ! move_idx mv)) \<noteq> []"
      "CHR 0x00 \<notin> set (fen E (make_move E pos (moves ! move_idx mv)))"
    and inv: "record_inv E nprocs pos depth moves W0 mv cl"
    and w: "1 \<le> w" "w < nprocs" and alive: "\<not> c_exited cl w" and idle: "c_outbox cl w = []"
    and more: "move_idx mv < length moves"
  shows "record_inv E nprocs pos depth moves W0
           (mv\<lparr>worker_busy := (worker_busy mv)(w := True),
               worker_moves := (worker_moves mv)(w := moves ! move_idx mv),
               move_idx := move_idx mv + 1\<rparr>)
           (send_work E pos depth (moves ! move_idx mv) w cl)"
proof -
  define m where "m = moves ! move_idx mv"
  define cl' where "cl' = send_work E pos depth m w cl"
  define wm' where "wm' = (worker_moves mv)(w := m)"
  note eff = send_work_child [OF alive fen, where depth = depth, folded m_def cl'_def]
  have mem: "m \<in> set moves"
    using more by (simp add: m_def)
  obtain n where box: "c_outbox cl' w = worker_reply (fst (search_child E pos depth m (c_workers cl w))) n"
    using eff(1) idle by (simp add: cl'_def)
  have ne: "c_outbox cl' w \<noteq> []"
    using box worker_reply_nonempty by simp
  have others: "c_outbox cl' w' = c_outbox cl w'" "c_workers cl' w' = c_workers cl w'" if "w' \<noteq> w" for w'
    using eff(3) [OF that] by (simp_all add: cl'_def)
  have h: "\<exists>ms. set ms \<subseteq> set moves \<and> c_workers cl' w' = worker_after E pos depth ms (W0 w') \<and>
           (c_outbox cl' w' \<noteq> [] \<longrightarrow>
              ms \<noteq> [] \<and> last ms = wm' w' \<and>
              (\<exists>n. c_outbox cl' w' =
                 worker_reply (fst (search_child E pos depth (last ms)
                                      (worker_after E pos depth (butlast ms) (W0 w')))) n))"
    if w': "1 \<le> w'" "w' < nprocs" for w'
  proof -
    obtain ms where ms: "set ms \<subseteq> set moves" "c_workers cl w' = worker_after E pos depth ms (W0 w')"
        "c_outbox cl w' \<noteq> [] \<longrightarrow>
              ms \<noteq> [] \<and> last ms = worker_moves mv w' \<and>
              (\<exists>n. c_outbox cl w' =
                 worker_reply (fst (search_child E pos depth (last ms)
                                      (worker_after E pos depth (butlast ms) (W0 w')))) n)"
      using inv w' unfolding record_inv_def by blast
    show ?thesis
    proof (cases "w' = w")
      case True
      have a: "set (ms @ [m]) \<subseteq> set moves"
        using ms(1) mem by simp
      have b: "c_workers cl' w' = worker_after E pos depth (ms @ [m]) (W0 w')"
        using eff(2) ms(2) True by (simp add: worker_after_snoc cl'_def)
      have c: "c_outbox cl' w' =
                 worker_reply (fst (search_child E pos depth (last (ms @ [m]))
                                      (worker_after E pos depth (butlast (ms @ [m])) (W0 w')))) n"
        using box ms(2) True by simp
      have d: "ms @ [m] \<noteq> []" "last (ms @ [m]) = wm' w'"
        using True by (simp_all add: wm'_def)
      show ?thesis
        using a b c d by blast
    next
      case False
      then show ?thesis
        using ms others [OF False] by (auto simp: wm'_def)
    qed
  qed
  have dm: "(\<exists>w'. 1 \<le> w' \<and> w' < nprocs \<and> c_outbox cl' w' \<noteq> [] \<and> wm' w' = m') \<or>
        (\<exists>rec. work_item_record E nprocs pos depth moves W0 m' rec \<and> score rec \<le> score (best_result mv))"
    if m': "m' \<in> set (take (move_idx mv + 1) moves)" for m'
  proof -
    have "set (take (move_idx mv + 1) moves) = insert m (set (take (move_idx mv) moves))"
      using more by (simp add: take_Suc_conv_app_nth m_def)
    then consider "m' = m" | "m' \<in> set (take (move_idx mv) moves)"
      using m' by auto
    then show ?thesis
    proof cases
      case 1
      then show ?thesis
        using w ne by (auto simp: wm'_def)
    next
      case 2
      then consider w'' where "1 \<le> w''" "w'' < nprocs" "c_outbox cl w'' \<noteq> []" "worker_moves mv w'' = m'"
        | "\<exists>rec. work_item_record E nprocs pos depth moves W0 m' rec \<and> score rec \<le> score (best_result mv)"
        using inv unfolding record_inv_def by blast
      then show ?thesis
      proof cases
        case 1
        then have "w'' \<noteq> w" using idle by auto
        then show ?thesis
          using 1 others(1) [of w''] by (auto simp: wm'_def)
      next
        case 2
        then show ?thesis by blast
      qed
    qed
  qed
  have b: "completed_moves mv \<noteq> 0 \<longrightarrow>
        (\<exists>m\<in>set moves. work_item_record E nprocs pos depth moves W0 m (best_result mv))"
    using inv unfolding record_inv_def by blast
  show ?thesis
    unfolding record_inv_def m_def [symmetric] cl'_def [symmetric]
    using h dm b by (simp add: wm'_def)
qed

lemma record_consume:
  assumes inv: "record_inv E nprocs pos depth moves W0 mv cl"
    and cinv: "collect_inv E nprocs moves {} mv cl"
    and w: "1 \<le> w" "w < nprocs" and busy: "c_outbox cl w \<noteq> []"
  shows "\<exists>res n. c_outbox cl w = worker_reply res n \<and>
           record_inv E nprocs pos depth moves W0
             (mv\<lparr>best_result := (if score (root_record (worker_moves mv w) res) > score (best_result mv)
                                  then root_record (worker_moves mv w) res else best_result mv),
                 completed_moves := completed_moves mv + 1,
                 worker_busy := (worker_busy mv)(w := False)\<rparr>)
             (cl\<lparr>c_outbox := (c_outbox cl)(w := [])\<rparr>)"
proof -
  obtain ms n where ms: "set ms \<subseteq> set moves" "c_workers cl w = worker_after E pos depth ms (W0 w)"
      "ms \<noteq> []" "last ms = worker_moves mv w"
      "c_outbox cl w = worker_reply (fst (search_child E pos depth (last ms)
                                      (worker_after E pos depth (butlast ms) (W0 w)))) n"
    using inv w busy unfolding record_inv_def by blast
  define res where "res = fst (search_child E pos depth (last ms) (worker_after E pos depth (butlast ms) (W0 w)))"
  define m where "m = worker_moves mv w"
  define rec where "rec = root_record m res"
  define best' where "best' = (if score rec > score (best_result mv) then rec else best_result mv)"
  have box: "c_outbox cl w = worker_reply res n"
    using ms(5) by (simp add: res_def)
  have mem: "m \<in> set moves"
    using ms(1,3,4) last_in_set [of ms] by (auto simp: m_def)
  have item: "work_item_record E nprocs pos depth moves W0 m rec"
    unfolding work_item_record_def rec_def res_def
    using w ms(1,4) in_set_butlastD [of _ ms] by (auto simp: m_def intro!: exI [of _ w] exI [of _ "butlast ms"])
  have "good_reply E (c_outbox cl w)"
    using cinv w busy by (auto simp: collect_inv_def)
  then have lt: "score res < INFINITE E"
    unfolding box by (auto simp: good_reply_def worker_reply_def)
  have sc: "score rec = - score res"
    by (simp add: rec_def root_record_def)
  have best0: "completed_moves mv = 0 \<Longrightarrow> score (best_result mv) = - INFINITE E"
    using cinv by (auto simp: collect_inv_def split: if_splits)
  have ge: "score (best_result mv) \<le> score best'" "score rec \<le> score best'"
    by (simp_all add: best'_def)
  have h: "\<exists>ms. set ms \<subseteq> set moves \<and> c_workers cl w' = worker_after E pos depth ms (W0 w') \<and>
           (((c_outbox cl)(w := [])) w' \<noteq> [] \<longrightarrow>
              ms \<noteq> [] \<and> last ms = worker_moves mv w' \<and>
              (\<exists>n. ((c_outbox cl)(w := [])) w' =
                 worker_reply (fst (search_child E pos depth (last ms)
                                      (worker_after E pos depth (butlast ms) (W0 w')))) n))"
    if w': "1 \<le> w'" "w' < nprocs" for w'
  proof -
    obtain ms' where ms': "set ms' \<subseteq> set moves" "c_workers cl w' = worker_after E pos depth ms' (W0 w')"
        "c_outbox cl w' \<noteq> [] \<longrightarrow>
              ms' \<noteq> [] \<and> last ms' = worker_moves mv w' \<and>
              (\<exists>n. c_outbox cl w' =
                 worker_reply (fst (search_child E pos depth (last ms')
                                      (worker_after E pos depth (butlast ms') (W0 w')))) n)"
      using inv w' unfolding record_inv_def by blast
    then show ?thesis
      by (cases "w' = w") auto
  qed
  have dm: "(\<exists>w'. 1 \<le> w' \<and> w' < nprocs \<and> ((c_outbox cl)(w := [])) w' \<noteq> [] \<and> worker_moves mv w' = m') \<or>
        (\<exists>rec. work_item_record E nprocs pos depth moves W0 m' rec \<and> score rec \<le> score best')"
    if m': "m' \<in> set (take (move_idx mv) moves)" for m'
  proof -
    consider w'' where "1 \<le> w''" "w'' < nprocs" "c_outbox cl w'' \<noteq> []" "worker_moves mv w'' = m'"
      | "\<exists>rec. work_item_record E nprocs pos depth moves W0 m' rec \<and> score rec \<le> score (best_result mv)"
      using inv m' unfolding record_inv_def by blast
    then show ?thesis
    proof cases
      case 1
      show ?thesis
      proof (cases "w'' = w")
        case True
        then have "m' = m" using 1(4) by (simp add: m_def)
        then show ?thesis using item ge(2) by blast
      next
        case False
        then show ?thesis using 1 by auto
      qed
    next
      case 2
      then show ?thesis using ge(1) by (meson order_trans)
    qed
  qed
  have b: "\<exists>m\<in>set moves. work_item_record E nprocs pos depth moves W0 m best'"
  proof (cases "score rec > score (best_result mv)")
    case True
    then show ?thesis using item mem by (auto simp: best'_def)
  next
    case False
    then have "completed_moves mv \<noteq> 0"
      using best0 sc lt by (cases "completed_moves mv = 0") auto
    then show ?thesis
      using inv False unfolding record_inv_def by (auto simp: best'_def)
  qed
  have "record_inv E nprocs pos depth moves W0
             (mv\<lparr>best_result := best', completed_moves := completed_moves mv + 1,
                 worker_busy := (worker_busy mv)(w := False)\<rparr>)
             (cl\<lparr>c_outbox := (c_outbox cl)(w := [])\<rparr>)"
    unfolding record_inv_def using h dm b by simp
  then show ?thesis
    using box unfolding best'_def rec_def m_def by blast
qed

lemma record_step:
  assumes fen: "\<forall>m\<in>set moves. fen E (make_move E pos m) \<noteq> [] \<and> CHR 0x00 \<notin> set (fen E (make_move E pos m))"
    and inv: "record_inv E nprocs pos depth moves W0 mv cl1"
    and cinv: "collect_inv E nprocs moves {} mv cl1"
    and w: "1 \<le> w" "w < nprocs" and busy: "c_outbox cl1 w \<noteq> []"
    and parse: "parse_reply (c_outbox cl1 w) = Some reply"
    and step: "master_step E pos depth moves w reply (mv, sg, cl1) = (mv', sg', cl')"
  shows "record_inv E nprocs pos depth moves W0 mv' cl'"
proof -
  obtain res n where box: "c_outbox cl1 w = worker_reply res n"
      and i1: "record_inv E nprocs pos depth moves W0
             (mv\<lparr>best_result := (if score (root_record (worker_moves mv w) res) > score (best_result mv)
                                  then root_record (worker_moves mv w) res else best_result mv),
                 completed_moves := completed_moves mv + 1,
                 worker_busy := (worker_busy mv)(w := False)\<rparr>)
             (cl1\<lparr>c_outbox := (c_outbox cl1)(w := [])\<rparr>)"
    using record_consume [OF inv cinv w busy] by blast
  define mv1 where "mv1 = mv\<lparr>best_result := (if score (root_record (worker_moves mv w) res) > score (best_result mv)
                                  then root_record (worker_moves mv w) res else best_result mv),
                 completed_moves := completed_moves mv + 1,
                 worker_busy := (worker_busy mv)(w := False)\<rparr>"
  define cl2 where "cl2 = cl1\<lparr>c_outbox := (c_outbox cl1)(w := [])\<rparr>"
  have reply: "reply = (score res, n, int (length (pv_moves res)),
                        map (\<lambda>m. uint16 (move_value m)) (pv_moves res), [])"
    using parse unfolding box worker_reply_parse by simp
  have alive: "\<not> c_exited cl2 w" and idle: "c_outbox cl2 w = []"
    using cinv w by (simp_all add: collect_inv_def cl2_def)
  have i1': "record_inv E nprocs pos depth moves W0 mv1 cl2"
    using i1 by (simp add: mv1_def cl2_def)
  have mi: "move_idx mv1 = move_idx mv"
    by (simp add: mv1_def)
  show ?thesis
  proof (cases "move_idx mv1 < length moves")
    case True
    then have f: "fen E (make_move E pos (moves ! move_idx mv1)) \<noteq> []"
        "CHR 0x00 \<notin> set (fen E (make_move E pos (moves ! move_idx mv1)))"
      using fen by simp_all
    have "master_step E pos depth moves w reply (mv, sg, cl1) =
          (mv1\<lparr>worker_busy := (worker_busy mv1)(w := True),
               worker_moves := (worker_moves mv1)(w := moves ! move_idx mv1),
               move_idx := move_idx mv1 + 1\<rparr>,
           (increment_nodes ^^ n) sg, send_work E pos depth (moves ! move_idx mv1) w cl2)"
      using True
      by (simp only: master_step_def reply prod.case Let_def worker_reply_record mv1_def [symmetric]
            cl2_def [symmetric] if_True)
    then have eq: "mv' = mv1\<lparr>worker_busy := (worker_busy mv1)(w := True),
               worker_moves := (worker_moves mv1)(w := moves ! move_idx mv1),
               move_idx := move_idx mv1 + 1\<rparr>"
          "cl' = send_work E pos depth (moves ! move_idx mv1) w cl2"
      using step by simp_all
    show ?thesis
      unfolding eq by (rule record_dispatch [OF f i1' w alive idle True])
  next
    case False
    have "master_step E pos depth moves w reply (mv, sg, cl1) =
          (mv1, (increment_nodes ^^ n) sg, deliver E w [Wint 0] cl2)"
      using False
      by (simp only: master_step_def reply prod.case Let_def worker_reply_record mv1_def [symmetric]
            cl2_def [symmetric] if_False)
    then have eq: "mv' = mv1" "cl' = deliver E w [Wint 0] cl2"
      using step by simp_all
    show ?thesis
      unfolding eq using i1' no_work_effect [OF alive, of E] by (simp add: record_inv_def)
  qed
qed

lemma record_inv_cong:
  assumes "c_outbox cl' = c_outbox cl" and "c_workers cl' = c_workers cl"
  shows "record_inv E nprocs pos depth moves W0 mv cl' = record_inv E nprocs pos depth moves W0 mv cl"
  using assms by (simp add: record_inv_def)

lemma collect_results_records:
  assumes ok: "score_constants_ok E"
    and fen: "\<forall>m\<in>set moves. fen E (make_move E pos m) \<noteq> [] \<and> CHR 0x00 \<notin> set (fen E (make_move E pos m))"
    and n: "2 \<le> nprocs"
  shows "collect_inv E nprocs moves {} mv cl \<Longrightarrow> record_inv E nprocs pos depth moves W0 mv cl \<Longrightarrow>
         \<exists>mv' sg' cl'. collect_results E nprocs pos depth moves mv sg cl = Some (mv', sg', cl') \<and>
            collect_inv E nprocs moves {} mv' cl' \<and> record_inv E nprocs pos depth moves W0 mv' cl' \<and>
            length moves \<le> completed_moves mv'"
proof (induction "length moves - completed_moves mv" arbitrary: mv sg cl)
  case 0
  have "\<not> completed_moves mv < length moves"
    using 0(1) by simp
  then have "collect_results E nprocs pos depth moves mv sg cl = Some (mv, sg, cl)"
      and "length moves \<le> completed_moves mv"
    by (simp_all add: collect_results_step [of E nprocs pos depth moves mv sg cl])
  with 0(2,3) show ?case by simp
next
  case (Suc k)
  have fen': "\<forall>m\<in>set moves. fen E (make_move E pos m) \<noteq> []"
    using fen by simp
  from Suc have lt: "completed_moves mv < length moves" by simp
  obtain w cl1 where recv: "recv_any_source nprocs cl = Some (w, cl1)" and w: "1 \<le> w" "w < nprocs"
      and busy: "c_outbox cl w \<noteq> []"
      and same: "c_outbox cl1 = c_outbox cl" "c_workers cl1 = c_workers cl" "c_exited cl1 = c_exited cl"
    using recv_any_source_busy [OF Suc(3) lt n] by blast
  have inv1: "collect_inv E nprocs moves {} mv cl1"
    using Suc(3) by (simp add: collect_inv_cong [OF same])
  have rinv1: "record_inv E nprocs pos depth moves W0 mv cl1"
    using Suc(4) by (simp add: record_inv_cong [OF same(1,2)])
  have busy1: "c_outbox cl1 w \<noteq> []" using busy same(1) by simp
  have "good_reply E (c_outbox cl1 w)"
    using inv1 w busy1 by (auto simp: collect_inv_def)
  then obtain s nn len vals where parse: "parse_reply (c_outbox cl1 w) = Some (s, nn, len, vals, [])"
      and s: "s < INFINITE E"
    using good_reply_parse(2) by blast
  obtain mv2 sg2 cl2 where step:
      "master_step E pos depth moves w (s, nn, len, vals, []) (mv, sg, cl1) = (mv2, sg2, cl2)"
    by (cases "master_step E pos depth moves w (s, nn, len, vals, []) (mv, sg, cl1)")
  note st = master_step_inv [OF ok fen' inv1 w busy1 s step]
  note rst = record_step [OF fen rinv1 inv1 w busy1 parse step]
  have unfold: "collect_results E nprocs pos depth moves mv sg cl =
                collect_results E nprocs pos depth moves mv2 sg2 cl2"
    using lt recv parse step
    by (simp add: collect_results_step [of E nprocs pos depth moves mv sg cl])
  have "k = length moves - completed_moves mv2"
    using Suc(2) st(2) by simp
  from Suc(1) [OF this st(1) rst, of sg2] show ?case
    unfolding unfold .
qed

lemma initial_work_records:
  assumes ok: "score_constants_ok E"
    and fen: "\<forall>m\<in>set moves. fen E (make_move E pos m) \<noteq> [] \<and> CHR 0x00 \<notin> set (fen E (make_move E pos m))"
  shows "distinct ws \<Longrightarrow> \<forall>w\<in>set ws. 1 \<le> w \<and> w < nprocs \<Longrightarrow>
         collect_inv E nprocs moves (set ws) mv cl \<Longrightarrow> record_inv E nprocs pos depth moves W0 mv cl \<Longrightarrow>
         record_inv E nprocs pos depth moves W0 (fst (initial_work E pos depth moves ws (mv, cl)))
           (snd (initial_work E pos depth moves ws (mv, cl)))"
proof (induction ws arbitrary: mv cl)
  case Nil
  then show ?case by simp
next
  case (Cons w ws)
  have w: "1 \<le> w" "w < nprocs" and nw: "w \<notin> set ws" and d: "distinct ws"
      and rest: "\<forall>w\<in>set ws. 1 \<le> w \<and> w < nprocs"
    using Cons.prems(1,2) by simp_all
  have idle: "c_outbox cl w = []" and alive: "\<not> c_exited cl w"
    using Cons.prems(3) w by (simp_all add: collect_inv_def)
  show ?case
  proof (cases "move_idx mv < length moves")
    case True
    then have f: "fen E (make_move E pos (moves ! move_idx mv)) \<noteq> []"
        "CHR 0x00 \<notin> set (fen E (make_move E pos (moves ! move_idx mv)))"
      using fen by simp_all
    define mv1 where "mv1 = mv\<lparr>worker_busy := (worker_busy mv)(w := True),
               worker_moves := (worker_moves mv)(w := moves ! move_idx mv),
               move_idx := move_idx mv + 1\<rparr>"
    define cl1 where "cl1 = send_work E pos depth (moves ! move_idx mv) w cl"
    have "collect_inv E nprocs moves (set (w # ws) - {w}) mv1 cl1"
      unfolding mv1_def cl1_def by (rule dispatch_inv [OF ok f(1) Cons.prems(3) w idle True])
    then have i1: "collect_inv E nprocs moves (set ws) mv1 cl1"
      using nw by simp
    have r1: "record_inv E nprocs pos depth moves W0 mv1 cl1"
      unfolding mv1_def cl1_def by (rule record_dispatch [OF f Cons.prems(4) w alive idle True])
    have eq: "initial_work E pos depth moves (w # ws) (mv, cl) = initial_work E pos depth moves ws (mv1, cl1)"
      using True by (simp add: Let_def mv1_def cl1_def)
    show ?thesis
      unfolding eq using Cons.IH [OF d rest i1 r1] .
  next
    case False
    define mv1 where "mv1 = mv\<lparr>worker_busy := (worker_busy mv)(w := False)\<rparr>"
    define cl1 where "cl1 = deliver E w [Wint 0] cl"
    have "collect_inv E nprocs moves (set ws) mv cl"
      using Cons.prems(3) False by (auto simp: collect_inv_def split: if_splits)
    then have "collect_inv E nprocs moves (set ws) mv cl1"
      unfolding cl1_def by (simp add: collect_inv_cong [OF no_work_effect [OF alive, of E]])
    then have i1: "collect_inv E nprocs moves (set ws) mv1 cl1"
      by (auto simp: collect_inv_def mv1_def split: if_splits)
    have "record_inv E nprocs pos depth moves W0 mv cl1"
      unfolding cl1_def using Cons.prems(4) by (simp add: record_inv_cong [OF no_work_effect(1,2) [OF alive, of E]])
    then have r1: "record_inv E nprocs pos depth moves W0 mv1 cl1"
      by (simp add: record_inv_def mv1_def)
    have eq: "initial_work E pos depth moves (w # ws) (mv, cl) = initial_work E pos depth moves ws (mv1, cl1)"
      using False by (simp add: Let_def mv1_def cl1_def)
    show ?thesis
      unfolding eq using Cons.IH [OF d rest i1 r1] .
  qed
qed

lemma work_item_record_set:
  assumes "set moves' = set moves"
  shows "work_item_record E nprocs pos depth moves' W0 m rec = work_item_record E nprocs pos depth moves W0 m rec"
  using assms by (simp add: work_item_record_def)

lemma root_record_fits:
  assumes "\<forall>x\<in>set (pv_moves res). uint16 (move_value x) = move_value x"
  shows "root_record m res = \<lparr>score = - score res, pv = Some (m # pv_moves res)\<rparr>"
proof -
  have "map (\<lambda>x. Move (uint16 (move_value x))) (pv_moves res) = pv_moves res"
    using assms by (simp add: map_idI)
  then show ?thesis
    by (simp add: root_record_def)
qed

lemma search_mpi_records:
  assumes ok: "score_constants_ok E"
    and fen: "\<forall>m\<in>set (legal_move_list E pos).
                fen E (make_move E pos m) \<noteq> [] \<and> CHR 0x00 \<notin> set (fen E (make_move E pos m))"
    and n: "2 \<le> nprocs"
    and workers: "\<forall>w. 1 \<le> w \<and> w < nprocs \<longrightarrow>
                    \<not> c_exited cl w \<and> c_outbox cl w = [] \<and> tt_ok E (snd (c_workers cl w))"
    and moves: "legal_move_list E pos \<noteq> []"
  shows "\<exists>r st' cl'. search_mpi E 0 nprocs pos depth st cl = Some (r, st', cl') \<and>
           (\<exists>m\<in>set (legal_move_list E pos).
              work_item_record E nprocs pos depth (legal_move_list E pos) (c_workers cl) m r) \<and>
           (\<forall>m\<in>set (legal_move_list E pos).
              \<exists>rec. work_item_record E nprocs pos depth (legal_move_list E pos) (c_workers cl) m rec \<and>
                    score rec \<le> score r)"
proof -
  define ms where "ms = sort_moves E pos (legal_move_list E pos) None"
  have sm: "set ms = set (legal_move_list E pos)"
    by (simp add: ms_def set_sort_moves)
  have ne: "ms \<noteq> []"
    using moves sm by (metis set_empty)
  have fen2: "\<forall>m\<in>set ms. fen E (make_move E pos m) \<noteq> [] \<and> CHR 0x00 \<notin> set (fen E (make_move E pos m))"
    using fen sm by simp
  then have fen1: "\<forall>m\<in>set ms. fen E (make_move E pos m) \<noteq> []"
    by simp
  define mv0 where "mv0 = \<lparr>best_result = \<lparr>score = - INFINITE E, pv = None\<rparr>, move_idx = 0,
      completed_moves = 0, worker_moves = (\<lambda>w. Move 0), worker_busy = (\<lambda>w. False)\<rparr>"
  have empty: "{w. 1 \<le> w \<and> w < nprocs \<and> c_outbox cl w \<noteq> []} = {}"
    using workers by auto
  have inv0: "collect_inv E nprocs ms (set [1..<nprocs]) mv0 cl"
    unfolding collect_inv_def empty using workers by (simp add: mv0_def)
  have "\<exists>l. set l \<subseteq> set ms \<and> c_workers cl w = worker_after E pos depth l (c_workers cl w)" for w
    by (rule exI [of _ "[]"]) simp
  then have rinv0: "record_inv E nprocs pos depth ms (c_workers cl) mv0 cl"
    unfolding record_inv_def using workers by (simp add: mv0_def)
  obtain mv1 cl1 where iw: "initial_work E pos depth ms [1..<nprocs] (mv0, cl) = (mv1, cl1)"
    by (cases "initial_work E pos depth ms [1..<nprocs] (mv0, cl)")
  have inv1: "collect_inv E nprocs ms {} mv1 cl1"
    using initial_work_inv [OF ok fen1, of "[1..<nprocs]" nprocs mv0 cl depth] inv0 iw
    by (simp add: mv0_def)
  have rinv1: "record_inv E nprocs pos depth ms (c_workers cl) mv1 cl1"
    using initial_work_records [OF ok fen2, of "[1..<nprocs]" nprocs mv0 cl depth "c_workers cl"] inv0 rinv0 iw
    by simp
  obtain mv2 sg2 cl2 where cr: "collect_results E nprocs pos depth ms mv1 (fst st) cl1 = Some (mv2, sg2, cl2)"
      and inv2: "collect_inv E nprocs ms {} mv2 cl2"
      and rinv2: "record_inv E nprocs pos depth ms (c_workers cl) mv2 cl2"
      and all_done: "length ms \<le> completed_moves mv2"
    using collect_results_records [OF ok fen2 n inv1 rinv1] by blast
  have run: "search_mpi E 0 nprocs pos depth st cl = Some (best_result mv2, (sg2, snd st), cl2)"
    using ne n iw cr
    by (simp add: search_mpi_def Let_def ms_def [symmetric] mv0_def [symmetric])
  have c0: "completed_moves mv2 \<noteq> 0"
    using all_done ne by (cases ms) auto
  have idx: "move_idx mv2 = length ms"
    using inv2 all_done by (auto simp: collect_inv_def)
  have cnt: "card {w. 1 \<le> w \<and> w < nprocs \<and> c_outbox cl2 w \<noteq> []} = 0"
    using inv2 all_done by (auto simp: collect_inv_def)
  then have idle: "{w. 1 \<le> w \<and> w < nprocs \<and> c_outbox cl2 w \<noteq> []} = {}"
    using busy_finite [of nprocs cl2] by simp
  have best: "\<exists>m\<in>set ms. work_item_record E nprocs pos depth ms (c_workers cl) m (best_result mv2)"
    using rinv2 c0 unfolding record_inv_def by blast
  have every: "\<exists>rec. work_item_record E nprocs pos depth ms (c_workers cl) m rec \<and>
                 score rec \<le> score (best_result mv2)" if m: "m \<in> set ms" for m
  proof -
    have "m \<in> set (take (move_idx mv2) ms)"
      using m idx by simp
    then have "(\<exists>w. 1 \<le> w \<and> w < nprocs \<and> c_outbox cl2 w \<noteq> [] \<and> worker_moves mv2 w = m) \<or>
        (\<exists>rec. work_item_record E nprocs pos depth ms (c_workers cl) m rec \<and>
               score rec \<le> score (best_result mv2))"
      using rinv2 unfolding record_inv_def by blast
    then show ?thesis
      using idle by blast
  qed
  show ?thesis
    using run best every unfolding work_item_record_set [OF sm] sm by blast
qed

text \<open>
  Claim C5 (work item). For every root move \<open>m\<close> the master dispatches (\<open>send_work\<close>) to
  a live, idle worker: the worker rebuilds the position from the FEN it receives,
  searches it with \<open>search_impl\<close> at \<open>depth - 1\<close>, window \<open>[-INFINITE, INFINITE]\<close>, on the
  second frame of its stack (\<open>search_child\<close>), and its channel then holds the score, the
  growth of its node counter, the length of the principal variation and, when it is not
  empty, its move values (\<open>worker_reply\<close>); its state is the one the search leaves
  (first conjunct). A round of the master (\<open>search\<close> with at least one worker) on a root
  position with a legal move, started with every worker alive and idle, returns, and the
  result it returns is the record of a work item of a legal root move: the negated score
  of the worker's search of the child position and the principal variation made of the
  root move followed by the worker's, as received (\<open>root_record\<close>, \<open>work_item_record\<close>:
  the worker searched from the state it had after the work items it served before in
  this round); and every legal root move has such a record with a score not above the
  returned one, so the master has recorded every work item it dispatched and kept the
  best (second conjunct). The move values travel as 16-bit numbers: when those of the
  worker's principal variation fit, the recorded principal variation is the root move
  followed by the worker's own (third conjunct). The FEN of a child position is assumed
  not empty and without a NUL character (the worker reads the buffer as a C string);
  the order of the score constants and worker tables within \<open>MATE_SCORE\<close> make the first
  record replace the initial best result.
\<close>

theorem worker_reply_and_master_record:
  assumes ok: "score_constants_ok E"
    and fen: "\<forall>m\<in>set (legal_move_list E pos).
                fen E (make_move E pos m) \<noteq> [] \<and> CHR 0x00 \<notin> set (fen E (make_move E pos m))"
    and n: "2 \<le> nprocs"
    and workers: "\<forall>w. 1 \<le> w \<and> w < nprocs \<longrightarrow>
                    \<not> c_exited cl w \<and> c_outbox cl w = [] \<and> tt_ok E (snd (c_workers cl w))"
    and moves: "legal_move_list E pos \<noteq> []"
  shows "(\<forall>cw worker m. \<not> c_exited cw worker \<and> c_outbox cw worker = [] \<and> m \<in> set (legal_move_list E pos) \<longrightarrow>
            c_outbox (send_work E pos depth m worker cw) worker =
              worker_reply (fst (search_child E pos depth m (c_workers cw worker)))
                (nodes (fst (snd (search_child E pos depth m (c_workers cw worker)))) -
                 nodes (fst (c_workers cw worker))) \<and>
            c_workers (send_work E pos depth m worker cw) worker =
              snd (search_child E pos depth m (c_workers cw worker))) \<and>
         (\<exists>r st' cl'. search_mpi E 0 nprocs pos depth st cl = Some (r, st', cl') \<and>
            (\<exists>m\<in>set (legal_move_list E pos).
               work_item_record E nprocs pos depth (legal_move_list E pos) (c_workers cl) m r) \<and>
            (\<forall>m\<in>set (legal_move_list E pos).
               \<exists>rec. work_item_record E nprocs pos depth (legal_move_list E pos) (c_workers cl) m rec \<and>
                     score rec \<le> score r)) \<and>
         (\<forall>m res. (\<forall>x\<in>set (pv_moves res). uint16 (move_value x) = move_value x) \<longrightarrow>
            root_record m res = \<lparr>score = - score res, pv = Some (m # pv_moves res)\<rparr>)"
proof -
  have worker: "c_outbox (send_work E pos depth m worker cw) worker =
              worker_reply (fst (search_child E pos depth m (c_workers cw worker)))
                (nodes (fst (snd (search_child E pos depth m (c_workers cw worker)))) -
                 nodes (fst (c_workers cw worker))) \<and>
            c_workers (send_work E pos depth m worker cw) worker =
              snd (search_child E pos depth m (c_workers cw worker))"
    if "\<not> c_exited cw worker" "c_outbox cw worker = []" "m \<in> set (legal_move_list E pos)"
    for cw worker m
    using send_work_child(1,2) [OF that(1), of E pos m depth] fen that(2,3) by simp
  show ?thesis
    using worker search_mpi_records [OF ok fen n workers moves, of depth st] root_record_fits
    by blast
qed

theorem worker_reply_and_master_record_witness:
  "2 \<le> (2::nat) \<and> legal_move_list toy 0 \<noteq> [] \<and>
   c_outbox (send_work toy 0 2 (Move 1) 1 cl0) 1 = [Wint 0, Wu64 2, Wint 1, Wu16s [3]] \<and>
   fst (search_child toy 0 2 (Move 1) (c_workers cl0 1)) = \<lparr>score = 0, pv = Some [Move 3]\<rparr> \<and>
   (\<exists>st' cl'. search_mpi toy 0 2 0 2 (sg0, tt_empty) cl0 =
                 Some (\<lparr>score = 0, pv = Some [Move 1, Move 3]\<rparr>, st', cl')) \<and>
   (\<exists>m. m \<in> set (legal_move_list toy 0) \<and>
        work_item_record toy 2 0 2 (legal_move_list toy 0) (c_workers cl0) m
          \<lparr>score = 0, pv = Some [Move 1, Move 3]\<rparr>)"
proof -
  have ok: "score_constants_ok toy"
    by (simp add: score_constants_ok_def toy_def)
  have fen: "\<forall>m\<in>set (legal_move_list toy 0).
               fen toy (make_move toy 0 m) \<noteq> [] \<and> CHR 0x00 \<notin> set (fen toy (make_move toy 0 m))"
    by (simp add: toy_def)
  have n: "2 \<le> (2::nat)" by simp
  have workers: "\<forall>w. 1 \<le> w \<and> w < 2 \<longrightarrow>
                    \<not> c_exited cl0 w \<and> c_outbox cl0 w = [] \<and> tt_ok toy (snd (c_workers cl0 w))"
    by (simp add: cl0_def tt_ok_def tt_empty_def mpi_clear_def default_entry_def toy_def)
  have moves: "legal_move_list toy 0 \<noteq> []"
    by (simp add: toy_def)
  have child: "search_child toy 0 2 (Move 1) (c_workers cl0 1) =
      (\<lparr>score = 0, pv = Some [Move 3]\<rparr>,
       (\<lparr>stop_flag = False, nodes = 2\<rparr>,
        tt_empty (1 := \<lparr>e_hash = 1, e_depth = 1, e_score = 0, e_best_move = 3, e_flag = UPPER_BOUND\<rparr>)))"
    unfolding search_child_def by (simp add: toy_simps cl0_def)
  have run: "\<exists>st' cl'. search_mpi toy 0 2 0 2 (sg0, tt_empty) cl0 =
                 Some (\<lparr>score = 0, pv = Some [Move 1, Move 3]\<rparr>, st', cl')"
    by (simp add: run_simps numeral_2_eq_2)
  note inst = worker_reply_and_master_record [OF ok fen n workers moves, of 2 "(sg0, tt_empty)"]
  have box: "c_outbox (send_work toy 0 2 (Move 1) 1 cl0) 1 = [Wint 0, Wu64 2, Wint 1, Wu16s [3]]"
  proof -
    have "\<not> c_exited cl0 1 \<and> c_outbox cl0 1 = [] \<and> Move 1 \<in> set (legal_move_list toy 0)"
      by (simp add: cl0_def toy_def)
    then have "c_outbox (send_work toy 0 2 (Move 1) 1 cl0) 1 =
              worker_reply (fst (search_child toy 0 2 (Move 1) (c_workers cl0 1)))
                (nodes (fst (snd (search_child toy 0 2 (Move 1) (c_workers cl0 1)))) -
                 nodes (fst (c_workers cl0 1)))"
      using inst by blast
    then show ?thesis
      unfolding child by (simp add: worker_reply_def pv_moves_def uint16_def cl0_def sg0_def)
  qed
  have item: "\<exists>m. m \<in> set (legal_move_list toy 0) \<and>
        work_item_record toy 2 0 2 (legal_move_list toy 0) (c_workers cl0) m
          \<lparr>score = 0, pv = Some [Move 1, Move 3]\<rparr>"
    using inst run by auto
  show ?thesis
    using n moves box child run item by simp
qed

end
